theory Spec2Isabelle
  imports Complex_Main
begin

section \<open>Errors and numpy-style array helpers\<close>

text \<open>
  Numbers are modelled as exact reals: rounding, overflow and underflow of the
  64-bit and 32-bit floats of the program are outside the model. A division by
  zero, which numpy and TensorFlow turn into \<open>inf\<close> or \<open>nan\<close>
  (no exception), is the explicit result \<open>Inl NonFinite\<close>; the exceptions
  Python raises are the other constructors.
\<close>

datatype error = ValueError | KeyError | IndexError | NonFinite

definition bindE :: "error + 'a \<Rightarrow> ('a \<Rightarrow> error + 'b) \<Rightarrow> error + 'b" where
  "bindE m f = (case m of Inl e \<Rightarrow> Inl e | Inr x \<Rightarrow> f x)"

text \<open>Runs \<open>f\<close> over a list from left to right and stops at the first error.\<close>

fun mapE :: "('a \<Rightarrow> error + 'b) \<Rightarrow> 'a list \<Rightarrow> error + 'b list" where
  "mapE f [] = Inr []"
| "mapE f (x # xs) =
     (case f x of Inl e \<Rightarrow> Inl e
      | Inr y \<Rightarrow> (case mapE f xs of Inl e \<Rightarrow> Inl e | Inr ys \<Rightarrow> Inr (y # ys)))"

definition nth_e :: "'a list \<Rightarrow> nat \<Rightarrow> error + 'a" where
  "nth_e xs i = (if i < length xs then Inr (xs ! i) else Inl IndexError)"

definition lookup :: "('k \<rightharpoonup> 'v) \<Rightarrow> 'k \<Rightarrow> error + 'v" where
  "lookup m k = (case m k of None \<Rightarrow> Inl KeyError | Some v \<Rightarrow> Inr v)"

section \<open>Claim probabilities of the variational variants\<close>





section \<open>Claims tables\<close>

text \<open>A row of the claims table: \<open>(source_id, object_id, value)\<close>, each a
  non-negative integer code (the data model of the repository); the table is the list
  of its rows in index order, the row position being the \<open>claim_id\<close>.\<close>

type_synonym claim = "nat \<times> nat \<times> nat"

definition source_id :: "claim \<Rightarrow> nat" where
  "source_id c = fst c"

definition object_id :: "claim \<Rightarrow> nat" where
  "object_id c = fst (snd c)"

definition claim_value :: "claim \<Rightarrow> nat" where
  "claim_value c = snd (snd c)"

text \<open>The labels of a column after \<open>pivot\<close> or \<open>groupby\<close>: distinct, ascending.\<close>

definition source_labels :: "claim list \<Rightarrow> nat list" where
  "source_labels cl = sort (remdups (map source_id cl))"

definition object_labels :: "claim list \<Rightarrow> nat list" where
  "object_labels cl = sort (remdups (map object_id cl))"

text \<open>\<open>claims.pivot(index='source_id', columns='object_id', values='value')\<close>:
  pandas raises ValueError when two rows share (source_id, object_id); a missing cell
  is NaN, here \<open>None\<close>.\<close>

definition pivot_source_object :: "claim list \<Rightarrow> error + nat option list list" where
  "pivot_source_object cl =
     (if distinct (map (\<lambda>c. (source_id c, object_id c)) cl)
      then Inr (map (\<lambda>s. map (\<lambda>ob. map_of (map (\<lambda>c. ((source_id c, object_id c), claim_value c)) cl) (s, ob))
                               (object_labels cl))
                    (source_labels cl))
      else Inl ValueError)"

text \<open>\<open>compute_weight_matrix\<close>: \<open>fillna(-1)\<close>, then \<open>W[W >= 0] = 1\<close>,
  then \<open>W[W < 0] = 0\<close>.\<close>

definition binarize :: "nat option \<Rightarrow> real" where
  "binarize cell =
     (let w = (case cell of None \<Rightarrow> - 1 | Some v \<Rightarrow> real v);
          w1 = (if w \<ge> 0 then 1 else w)
      in if w1 < 0 then 0 else w1)"

definition compute_weight_matrix :: "claim list \<Rightarrow> error + real list list" where
  "compute_weight_matrix cl =
     bindE (pivot_source_object cl) (\<lambda>W. Inr (map (map binarize) W))"

text \<open>\<open>compute_observation_matrix\<close>: the pivot on (source_id, claim_id); claim ids
  are row positions, so no two rows collide; a missing cell is filled with -1.\<close>

definition compute_observation_matrix :: "claim list \<Rightarrow> real list list" where
  "compute_observation_matrix cl =
     map (\<lambda>s. map (\<lambda>c. if source_id (cl ! c) = s then real (claim_value (cl ! c)) else - 1)
                    [0..<length cl])
         (source_labels cl)"

text \<open>\<open>_compute_prob_desc\<close>: \<open>nunique\<close> of the two id columns and the Series
  \<open>groupby('object_id').max()['value'] + 1\<close>, indexed by the object ids that occur.\<close>

definition group_values :: "claim list \<Rightarrow> nat \<Rightarrow> nat list" where
  "group_values cl ob = map claim_value (filter (\<lambda>c. object_id c = ob) cl)"

definition domain_size_series :: "claim list \<Rightarrow> (nat \<rightharpoonup> nat)" where
  "domain_size_series cl =
     map_of (map (\<lambda>ob. (ob, Max (set (group_values cl ob)) + 1)) (object_labels cl))"

definition compute_prob_desc :: "claim list \<Rightarrow> nat \<times> nat \<times> (nat \<rightharpoonup> nat)" where
  "compute_prob_desc cl =
     (length (remdups (map source_id cl)),
      length (remdups (map object_id cl)),
      domain_size_series cl)"

section \<open>simpleLCA_EM: state and constructor\<close>

text \<open>The numpy arrays \<open>theta_old\<close> and \<open>theta_new\<close> are objects that the
  attributes refer to: the state holds a store of arrays and the two references, so
  that \<open>self.theta_old = self.theta_new\<close> copies a reference and an in-place
  write is seen through both.\<close>

record em_state =
  claims :: "claim list"
  observation :: "real list list"
  weight :: "real list list"
  n_sources :: nat
  n_objects :: nat
  domain_size :: "nat \<rightharpoonup> nat"
  posterior :: "nat \<rightharpoonup> real list"
  prior :: "nat \<rightharpoonup> real list"
  value_index :: "nat \<times> nat \<rightharpoonup> nat"
  store :: "nat \<Rightarrow> real list"
  theta_old :: nat
  theta_new :: nat

definition np_ones :: "nat \<Rightarrow> real list" where
  "np_ones n = replicate n 1"

text \<open>The loop \<open>for o in range(n_objects): prior[o] = np.ones((domain_size[o],)) / domain_size[o]\<close>;
  \<open>domain_size[o]\<close> is a lookup by label and raises KeyError for an \<open>o\<close> that is no
  object id of the table.\<close>

definition init_prior :: "nat \<Rightarrow> (nat \<rightharpoonup> nat) \<Rightarrow> error + (nat \<rightharpoonup> real list)" where
  "init_prior n ds =
     (if \<forall>ob \<in> set [0..<n]. ds ob \<noteq> None
      then Inr (\<lambda>ob. if ob < n
                      then map_option (\<lambda>d. map (\<lambda>x. x / real d) (np_ones d)) (ds ob)
                      else None)
      else Inl KeyError)"

text \<open>The loop over the rows that fills \<open>value_index\<close>: a later row overwrites an
  earlier one with the same key.\<close>

definition build_value_index :: "claim list \<Rightarrow> (nat \<times> nat \<rightharpoonup> nat)" where
  "build_value_index cl =
     foldl (\<lambda>m c. m((source_id c, object_id c) \<mapsto> claim_value c)) Map.empty cl"

text \<open>\<open>simpleLCA_EM.__init__\<close>. The two honesty arrays are fresh and distinct:
  addresses 0 and 1 of the store.\<close>

definition init :: "claim list \<Rightarrow> error + em_state" where
  "init cl =
     bindE (compute_weight_matrix cl) (\<lambda>W.
       case compute_prob_desc cl of (ns, nobj, ds) \<Rightarrow>
         bindE (init_prior nobj ds) (\<lambda>pr.
           Inr \<lparr> claims = cl,
                 observation = compute_observation_matrix cl,
                 weight = W,
                 n_sources = ns,
                 n_objects = nobj,
                 domain_size = ds,
                 posterior = Map.empty,
                 prior = pr,
                 value_index = build_value_index cl,
                 store = (\<lambda>a. [])(0 := map (\<lambda>x. (1 / 2) * x) (np_ones ns),
                                     1 := map (\<lambda>x. (99 / 100) * x) (np_ones ns)),
                 theta_old = 0,
                 theta_new = 1 \<rparr>))"

section \<open>simpleLCA_EM: the E-step\<close>

definition get_value :: "em_state \<Rightarrow> nat \<Rightarrow> nat \<Rightarrow> nat option" where
  "get_value st s_id o_id = value_index st (s_id, o_id)"

text \<open>One iteration of the loop of \<open>compute_responsibility\<close>: the entry
  \<open>resp[s_id]\<close>, which stays 1 unless \<open>weight[s_id][o_id] == 1\<close>.\<close>

definition resp_entry :: "em_state \<Rightarrow> nat \<Rightarrow> nat \<Rightarrow> nat \<Rightarrow> error + real" where
  "resp_entry st o_id v s_id =
     bindE (nth_e (weight st) s_id) (\<lambda>row.
     bindE (nth_e row o_id) (\<lambda>w.
       if w = 1 then
         (if get_value st s_id o_id = Some v then nth_e (store st (theta_old st)) s_id
          else bindE (nth_e (store st (theta_old st)) s_id) (\<lambda>t.
               bindE (lookup (domain_size st) o_id) (\<lambda>d.
                 if d = 0 then Inl NonFinite else Inr ((1 - t) / real d))))
       else Inr 1))"

definition compute_responsibility :: "em_state \<Rightarrow> nat \<Rightarrow> nat \<Rightarrow> error + real" where
  "compute_responsibility st o_id v =
     bindE (mapE (resp_entry st o_id v) [0..<n_sources st]) (\<lambda>resp. Inr (prod_list resp))"

text \<open>Elementwise numpy arithmetic on one-dimensional arrays, with broadcasting of a
  length-one operand; other shape mismatches raise ValueError.\<close>

definition np_binop :: "(real \<Rightarrow> real \<Rightarrow> real) \<Rightarrow> real list \<Rightarrow> real list \<Rightarrow> error + real list" where
  "np_binop f xs ys =
     (if length xs = length ys then Inr (map2 f xs ys)
      else if length xs = 1 then Inr (map (f (hd xs)) ys)
      else if length ys = 1 then Inr (map (\<lambda>x. f x (hd ys)) xs)
      else Inl ValueError)"

definition compute_joint :: "em_state \<Rightarrow> nat \<Rightarrow> error + real list" where
  "compute_joint st o_id =
     bindE (lookup (domain_size st) o_id) (\<lambda>d.
     bindE (mapE (compute_responsibility st o_id) [0..<d]) (\<lambda>responsibility.
     bindE (lookup (prior st) o_id) (\<lambda>p.
       np_binop (*) p responsibility)))"

text \<open>\<open>joint_prob / np.sum(joint_prob)\<close>: an empty array stays empty; otherwise a
  zero sum gives non-finite entries.\<close>

definition normalize :: "real list \<Rightarrow> error + real list" where
  "normalize joint_prob =
     (if joint_prob = [] then Inr []
      else if sum_list joint_prob = 0 then Inl NonFinite
      else Inr (map (\<lambda>x. x / sum_list joint_prob) joint_prob))"

fun e_step_loop :: "em_state \<Rightarrow> nat list \<Rightarrow> error + em_state" where
  "e_step_loop st [] = Inr st"
| "e_step_loop st (ob # obs) =
     bindE (compute_joint st ob) (\<lambda>joint_prob.
     bindE (normalize joint_prob) (\<lambda>p.
       e_step_loop (st\<lparr>posterior := (posterior st)(ob \<mapsto> p)\<rparr>) obs))"

definition e_step :: "em_state \<Rightarrow> error + em_state" where
  "e_step st = e_step_loop st [0..<n_objects st]"

section \<open>simpleLCA_EM: the M-step\<close>

text \<open>The body of the two nested loops of \<open>compute_honest\<close>: the summand
  \<open>posterior[o][v] * mask\<close>.\<close>

definition honest_term :: "em_state \<Rightarrow> nat \<Rightarrow> nat \<Rightarrow> nat \<Rightarrow> error + real" where
  "honest_term st s_id ob v =
     bindE (nth_e (weight st) s_id) (\<lambda>row.
     bindE (nth_e row ob) (\<lambda>w.
       let mask = w * (if get_value st s_id ob = Some v then 1 else 0) in
       bindE (lookup (posterior st) ob) (\<lambda>p.
       bindE (nth_e p v) (\<lambda>pv. Inr (pv * mask)))))"

definition honest_terms :: "em_state \<Rightarrow> nat \<Rightarrow> nat \<Rightarrow> error + real list" where
  "honest_terms st s_id ob =
     bindE (lookup (domain_size st) ob) (\<lambda>d. mapE (honest_term st s_id ob) [0..<d])"

text \<open>\<open>compute_honest\<close> writes \<open>theta_new[s_id]\<close> in place: the array at the
  address \<open>theta_new\<close> of the store changes, whoever refers to it.\<close>

definition compute_honest :: "em_state \<Rightarrow> nat \<Rightarrow> error + em_state" where
  "compute_honest st s_id =
     bindE (nth_e (weight st) s_id) (\<lambda>row.
       let number_of_objects = sum_list row in
       bindE (mapE (honest_terms st s_id) [0..<n_objects st]) (\<lambda>terms.
         let honest = 0 + sum_list (concat terms) in
         if number_of_objects = 0 then Inl NonFinite
         else if s_id < length (store st (theta_new st))
         then Inr (st\<lparr>store := (store st)(theta_new st :=
                       (store st (theta_new st))[s_id := honest / number_of_objects])\<rparr>)
         else Inl IndexError))"

fun m_step_loop :: "em_state \<Rightarrow> nat list \<Rightarrow> error + em_state" where
  "m_step_loop st [] = Inr st"
| "m_step_loop st (s # ss) = bindE (compute_honest st s) (\<lambda>st'. m_step_loop st' ss)"

definition m_step :: "em_state \<Rightarrow> error + em_state" where
  "m_step st = m_step_loop st [0..<n_sources st]"

section \<open>simpleLCA_EM: discover\<close>

text \<open>\<open>np.linalg.norm(x, ord=2)\<close> of a vector.\<close>

definition norm2 :: "real list \<Rightarrow> real" where
  "norm2 xs = sqrt (sum_list (map (\<lambda>x. \<bar>x\<bar> ^ 2) xs))"

text \<open>The \<open>while (True)\<close> loop of \<open>discover\<close>, with fuel: \<open>None\<close> means that
  the loop is still running when the fuel is used up. The result carries the loop
  counter \<open>step\<close>.\<close>

fun discover_loop :: "nat \<Rightarrow> real \<Rightarrow> nat \<Rightarrow> em_state \<Rightarrow> (error + nat \<times> em_state) option" where
  "discover_loop 0 alpha step st = None"
| "discover_loop (Suc fuel) alpha step st =
     (case e_step st of Inl e \<Rightarrow> Some (Inl e)
      | Inr st1 \<Rightarrow>
     (case m_step st1 of Inl e \<Rightarrow> Some (Inl e)
      | Inr st2 \<Rightarrow>
     (case np_binop (-) (store st2 (theta_old st2)) (store st2 (theta_new st2)) of
        Inl e \<Rightarrow> Some (Inl e)
      | Inr d \<Rightarrow>
          let diff = norm2 d in
          if diff < alpha then Some (Inr (step, st2))
          else discover_loop fuel alpha (step + 1) (st2\<lparr>theta_old := theta_new st2\<rparr>))))"





section \<open>Majority vote\<close>

text \<open>\<open>Series.value_counts()\<close>: the distinct values with their number of
  occurrences, by descending count. The order among equal counts is pandas' own
  (here: first appearance, kept by a stable sort); no theorem below depends on it.\<close>

definition value_counts :: "nat list \<Rightarrow> (nat \<times> nat) list" where
  "value_counts vs =
     sort_key (\<lambda>vc. - int (snd vc)) (map (\<lambda>v. (v, count_list vs v)) (rev (remdups (rev vs))))"

text \<open>\<open>Series.idxmax()\<close>: the label of the first entry that holds the maximum;
  ValueError on an empty Series.\<close>

definition idxmax :: "(nat \<times> nat) list \<Rightarrow> error + nat" where
  "idxmax vc =
     (case find (\<lambda>p. snd p = Max (set (map snd vc))) vc of
        None \<Rightarrow> Inl ValueError
      | Some p \<Rightarrow> Inr (fst p))"

text \<open>\<open>elect(x)\<close> is \<open>x.value.value_counts().idxmax()\<close>; its argument here is the
  \<open>value\<close> column of the group.\<close>

definition elect :: "nat list \<Rightarrow> error + nat" where
  "elect vs = idxmax (value_counts vs)"

text \<open>\<open>majority_vote\<close>: \<open>groupby(['object_id']).apply(elect)\<close>, one row
  \<open>(object_id, value)\<close> per group, the groups in ascending order of their key.\<close>

definition majority_vote :: "claim list \<Rightarrow> error + (nat \<times> nat) list" where
  "majority_vote cl =
     mapE (\<lambda>ob. bindE (elect (group_values cl ob)) (\<lambda>v. Inr (ob, v))) (object_labels cl)"

section \<open>The per-claim variational variant (lca_tf.LCA)\<close>

text \<open>Names of random variables: \<open>x_claim_c\<close>, \<open>z_trusts\<close>, \<open>z_truth_m\<close>.\<close>

datatype rv_name = X_claim nat | Z_trusts | Z_truth nat









section \<open>The fixtures of the test suite\<close>

definition fixtureA :: "claim list" where
  "fixtureA = [(0, 0, 0), (0, 1, 1), (1, 1, 3), (1, 0, 1), (2, 2, 1)]"

definition fixtureB :: "claim list" where
  "fixtureB = [(0, 0, 0), (0, 1, 1), (1, 1, 0), (1, 0, 1), (2, 2, 1)]"

text \<open>Object 5 receives the values 1, 1, 2 from three distinct sources.\<close>

definition votes_example :: "claim list" where
  "votes_example = [(0, 5, 1), (1, 5, 1), (2, 5, 2)]"

section \<open>States of a simpleLCA_EM object\<close>

text \<open>The states an object built from the table \<open>cl\<close> can be in: the constructor's
  result, and what the methods that write to the object make of it. The step
  \<open>advance\<close> is the assignment \<open>self.theta_old = self.theta_new\<close> of \<open>discover\<close>.\<close>

inductive reachable :: "claim list \<Rightarrow> em_state \<Rightarrow> bool" where
  constructed: "init cl = Inr st \<Longrightarrow> reachable cl st"
| after_e_step: "reachable cl st \<Longrightarrow> e_step st = Inr st' \<Longrightarrow> reachable cl st'"
| after_compute_honest: "reachable cl st \<Longrightarrow> compute_honest st s = Inr st' \<Longrightarrow> reachable cl st'"
| after_m_step: "reachable cl st \<Longrightarrow> m_step st = Inr st' \<Longrightarrow> reachable cl st'"
| advance: "reachable cl st \<Longrightarrow> reachable cl (st\<lparr>theta_old := theta_new st\<rparr>)"

text \<open>The shapes that the constructor fixes: the weight matrix has one row per source
  and one column per object, both honesty arrays have one entry per source, every
  object below \<open>n_objects\<close> has a positive domain size and a uniform prior of that
  length, and a posterior vector, once written, has that length too.\<close>

definition shaped :: "em_state \<Rightarrow> bool" where
  "shaped st \<longleftrightarrow>
     length (weight st) = n_sources st
   \<and> (\<forall>row \<in> set (weight st). length row = n_objects st)
   \<and> length (store st (theta_old st)) = n_sources st
   \<and> length (store st (theta_new st)) = n_sources st
   \<and> (\<forall>ob < n_objects st. \<exists>d. domain_size st ob = Some d \<and> 0 < d
                               \<and> prior st ob = Some (replicate d (1 / real d)))
   \<and> (\<forall>ob p. posterior st ob = Some p \<longrightarrow> domain_size st ob = Some (length p))"

text \<open>The fields that no method writes after construction.\<close>

definition same_table :: "em_state \<Rightarrow> em_state \<Rightarrow> bool" where
  "same_table st st' \<longleftrightarrow>
     claims st' = claims st \<and> observation st' = observation st \<and> weight st' = weight st
   \<and> n_sources st' = n_sources st \<and> n_objects st' = n_objects st
   \<and> domain_size st' = domain_size st \<and> prior st' = prior st
   \<and> value_index st' = value_index st"

text \<open>Closed forms of the quantities that the E-step and the M-step compute, for a
  state that \<open>shaped\<close> holds of: the factor of one source in a responsibility, the
  responsibility, the joint and posterior vectors of an object, and the new honesty
  of a source.\<close>

definition dsize :: "em_state \<Rightarrow> nat \<Rightarrow> nat" where
  "dsize st ob = (case domain_size st ob of None \<Rightarrow> 0 | Some d \<Rightarrow> d)"

definition resp_factor :: "em_state \<Rightarrow> nat \<Rightarrow> nat \<Rightarrow> nat \<Rightarrow> real" where
  "resp_factor st ob v s =
     (if weight st ! s ! ob = 1
      then (if get_value st s ob = Some v then store st (theta_old st) ! s
            else (1 - store st (theta_old st) ! s) / real (dsize st ob))
      else 1)"

definition resp_value :: "em_state \<Rightarrow> nat \<Rightarrow> nat \<Rightarrow> real" where
  "resp_value st ob v = prod_list (map (resp_factor st ob v) [0..<n_sources st])"

definition joint_value :: "em_state \<Rightarrow> nat \<Rightarrow> real list" where
  "joint_value st ob =
     map (\<lambda>v. 1 / real (dsize st ob) * resp_value st ob v) [0..<dsize st ob]"

definition post_value :: "em_state \<Rightarrow> nat \<Rightarrow> real list" where
  "post_value st ob = map (\<lambda>x. x / sum_list (joint_value st ob)) (joint_value st ob)"

definition match_sum :: "em_state \<Rightarrow> nat \<Rightarrow> nat \<Rightarrow> real" where
  "match_sum st s ob =
     (\<Sum>v\<leftarrow>[0..<dsize st ob].
        (case posterior st ob of None \<Rightarrow> 0 | Some p \<Rightarrow> p ! v)
        * (weight st ! s ! ob * (if get_value st s ob = Some v then 1 else 0)))"

definition honest_value :: "em_state \<Rightarrow> nat \<Rightarrow> real" where
  "honest_value st s =
     (\<Sum>ob\<leftarrow>[0..<n_objects st]. match_sum st s ob) / sum_list (weight st ! s)"

text \<open>The E-step has written a posterior for every object.\<close>

definition complete_posterior :: "em_state \<Rightarrow> bool" where
  "complete_posterior st \<longleftrightarrow> (\<forall>ob < n_objects st. posterior st ob \<noteq> None)"

text \<open>Dense, zero-based ids: the ids of a column are exactly the numbers below the
  number of distinct ids. No two rows share (source_id, object_id), as the constructor
  demands.\<close>

definition dense_ids :: "claim list \<Rightarrow> bool" where
  "dense_ids cl \<longleftrightarrow>
     set (map source_id cl) = {0..<length (remdups (map source_id cl))}
   \<and> set (map object_id cl) = {0..<length (remdups (map object_id cl))}
   \<and> distinct (map (\<lambda>c. (source_id c, object_id c)) cl)"

text \<open>What dense ids give the loop: row \<open>s\<close> of the weight matrix is the row of source
  \<open>s\<close>, so an entry is 1 exactly where \<open>get_value\<close> finds a value; an asserted value lies
  below the domain size; every source has a claim.\<close>

definition aligned :: "em_state \<Rightarrow> bool" where
  "aligned st \<longleftrightarrow>
     (\<forall>s < n_sources st. \<forall>ob < n_objects st.
        (weight st ! s ! ob = 0 \<or> weight st ! s ! ob = 1)
      \<and> (weight st ! s ! ob = 1 \<longrightarrow> get_value st s ob \<noteq> None))
   \<and> (\<forall>s ob v. ob < n_objects st \<longrightarrow> get_value st s ob = Some v \<longrightarrow> v < dsize st ob)
   \<and> (\<forall>s < n_sources st. \<exists>ob < n_objects st. weight st ! s ! ob = 1)"

text \<open>The range of an honesty vector that the loop keeps: every entry lies in (0, 1], and
  an entry is 1 only for a source all of whose objects have a single value.\<close>

definition honest_ok :: "em_state \<Rightarrow> real list \<Rightarrow> bool" where
  "honest_ok st th \<longleftrightarrow>
     (\<forall>s < n_sources st. 0 < th ! s \<and> th ! s \<le> 1
        \<and> (th ! s = 1 \<longrightarrow> (\<forall>ob < n_objects st. weight st ! s ! ob = 1 \<longrightarrow> dsize st ob = 1)))"

text \<open>The range of the posteriors after an E-step from such a vector.\<close>

definition post_ok :: "em_state \<Rightarrow> bool" where
  "post_ok st \<longleftrightarrow>
     (\<forall>ob < n_objects st. \<exists>p. posterior st ob = Some p
        \<and> (\<forall>v < dsize st ob. 0 < p ! v \<and> p ! v \<le> 1 \<and> (1 < dsize st ob \<longrightarrow> p ! v < 1)))"

section \<open>Facts about the error monad\<close>

lemma bindE_Inr [simp]: "bindE (Inr x) f = f x"
  by (simp add: bindE_def)

lemma bindE_Inl [simp]: "bindE (Inl e) f = Inl e"
  by (simp add: bindE_def)

lemma bindE_eq_Inr: "bindE m f = Inr y \<longleftrightarrow> (\<exists>x. m = Inr x \<and> f x = Inr y)"
  by (cases m) auto

lemma mapE_Inr: "(\<And>x. x \<in> set xs \<Longrightarrow> f x = Inr (g x)) \<Longrightarrow> mapE f xs = Inr (map g xs)"
  by (induction xs) auto

lemma mapE_InrD:
  "mapE f xs = Inr ys \<Longrightarrow> length ys = length xs \<and> (\<forall>i<length xs. f (xs ! i) = Inr (ys ! i))"
proof (induction xs arbitrary: ys)
  case Nil
  then show ?case by simp
next
  case (Cons x xs)
  from Cons.prems obtain y ys' where fx: "f x = Inr y" and rest: "mapE f xs = Inr ys'" and ys: "ys = y # ys'"
    by (auto split: sum.splits)
  from Cons.IH[OF rest] have len: "length ys' = length xs"
    and nth: "\<forall>i<length xs. f (xs ! i) = Inr (ys' ! i)" by auto
  show ?case
  proof (intro conjI allI impI)
    show "length ys = length (x # xs)" using len ys by simp
  next
    fix i assume "i < length (x # xs)"
    then show "f ((x # xs) ! i) = Inr (ys ! i)"
      using fx nth ys by (cases i) auto
  qed
qed

section \<open>The claim probabilities form a distribution\<close>






section \<open>The value index\<close>

lemma foldl_upd_lookup:
  "foldl (\<lambda>m c. m(k c \<mapsto> f c)) m0 cl x =
     (case map_of (rev (map (\<lambda>c. (k c, f c)) cl)) x of None \<Rightarrow> m0 x | Some v \<Rightarrow> Some v)"
  by (induction cl arbitrary: m0) (auto split: option.splits simp: map_add_def)

lemma build_value_index_distinct:
  assumes "distinct (map (\<lambda>c. (source_id c, object_id c)) cl)"
  shows "build_value_index cl (s, ob) = Some v \<longleftrightarrow> (s, ob, v) \<in> set cl"
proof -
  let ?ps = "map (\<lambda>c. ((source_id c, object_id c), claim_value c)) cl"
  have fst: "map fst (rev ?ps) = rev (map (\<lambda>c. (source_id c, object_id c)) cl)"
    by (simp add: rev_map comp_def)
  have d: "distinct (map fst (rev ?ps))" using assms unfolding fst by simp
  have "build_value_index cl (s, ob) = map_of (rev ?ps) (s, ob)"
    unfolding build_value_index_def foldl_upd_lookup by (simp split: option.splits)
  also have "\<dots> = Some v \<longleftrightarrow> ((s, ob), v) \<in> set (rev ?ps)"
    using map_of_eq_Some_iff[OF d] by blast
  also have "\<dots> \<longleftrightarrow> (s, ob, v) \<in> set cl"
    by (force simp: source_id_def object_id_def claim_value_def)
  finally show ?thesis .
qed

lemma domain_size_series_eq:
  "domain_size_series cl =
     (\<lambda>ob. if group_values cl ob = [] then None
           else Some (Max (set (group_values cl ob)) + 1))"
proof (rule ext)
  fix ob
  have mem: "ob \<in> set (object_labels cl) \<longleftrightarrow> group_values cl ob \<noteq> []"
    by (auto simp: object_labels_def group_values_def filter_empty_conv)
  have "domain_size_series cl ob =
      (if ob \<in> set (object_labels cl) then Some (Max (set (group_values cl ob)) + 1) else None)"
    unfolding domain_size_series_def
    by (simp add: map_of_map_restrict restrict_map_def)
  then show "domain_size_series cl ob =
      (if group_values cl ob = [] then None else Some (Max (set (group_values cl ob)) + 1))"
    unfolding mem by simp
qed

lemma init_InrD:
  assumes "init cl = Inr st"
  shows "distinct (map (\<lambda>c. (source_id c, object_id c)) cl)"
    and "value_index st = build_value_index cl"
    and "claims st = cl"
  using assms
  by (auto simp: init_def compute_weight_matrix_def pivot_source_object_def bindE_eq_Inr
           split: if_splits prod.splits)

lemma init_fixtureA: "init fixtureA = Inr (projr (init fixtureA))"
proof -
  have "\<not> isl (init fixtureA)" by code_simp
  then show ?thesis by (cases "init fixtureA") auto
qed

text \<open>
  C8. On an object built from the table \<open>cl\<close> (the constructor rejects a table with two
  rows for one (source_id, object_id) pair), \<open>get_value(s, o)\<close> returns the value that
  \<open>s\<close> asserted about \<open>o\<close> when such a row exists, and \<open>None\<close>, which is no value
  code, when there is none. On fixture A, \<open>get_value(1, 0)\<close> is 1 and \<open>get_value(1, 1)\<close> is 3
  (the witness).
\<close>

theorem get_value_lookup:
  assumes "init cl = Inr st"
  shows "((s, ob, v) \<in> set cl \<longrightarrow> get_value st s ob = Some v)
       \<and> ((\<forall>w. (s, ob, w) \<notin> set cl) \<longrightarrow> get_value st s ob = None)"
proof -
  have iff: "\<And>w. get_value st s ob = Some w \<longleftrightarrow> (s, ob, w) \<in> set cl"
    using init_InrD(1,2)[OF assms] build_value_index_distinct[of cl s ob]
    by (simp add: get_value_def)
  show ?thesis
  proof (intro conjI impI)
    assume "(s, ob, v) \<in> set cl" then show "get_value st s ob = Some v" using iff by blast
  next
    assume "\<forall>w. (s, ob, w) \<notin> set cl"
    then have "\<And>w. get_value st s ob \<noteq> Some w" using iff by blast
    then show "get_value st s ob = None" by (cases "get_value st s ob") auto
  qed
qed

theorem get_value_lookup_witness:
  "get_value (projr (init fixtureA)) 1 0 = Some 1
   \<and> get_value (projr (init fixtureA)) 1 1 = Some 3
   \<and> get_value (projr (init fixtureA)) 2 0 = None"
  using get_value_lookup[OF init_fixtureA, of 1 0 1]
        get_value_lookup[OF init_fixtureA, of 1 1 3]
        get_value_lookup[OF init_fixtureA, of 2 0 0]
  by (simp add: fixtureA_def)

section \<open>Majority vote returns a mode\<close>

lemma filter_eq_distinct: "distinct xs \<Longrightarrow> x \<in> set xs \<Longrightarrow> filter (\<lambda>y. y = x) xs = [x]"
proof (induction xs)
  case Nil
  then show ?case by simp
next
  case (Cons a xs)
  show ?case
  proof (cases "a = x")
    case True
    with Cons.prems have "x \<notin> set xs" by simp
    then have "filter (\<lambda>y. y = x) xs = []" by (induction xs) auto
    with True show ?thesis by simp
  next
    case False
    with Cons show ?thesis by simp
  qed
qed

lemma set_value_counts: "set (value_counts vs) = (\<lambda>v. (v, count_list vs v)) ` set vs"
  by (simp add: value_counts_def)

lemma elect_mode:
  assumes "vs \<noteq> []"
  shows "\<exists>w. elect vs = Inr w \<and> w \<in> set vs \<and> (\<forall>u. count_list vs u \<le> count_list vs w)"
proof -
  let ?vc = "value_counts vs"
  let ?C = "set (map snd ?vc)"
  have C: "?C = count_list vs ` set vs" by (simp add: set_value_counts image_image)
  have ne: "?C \<noteq> {}" using assms C by simp
  have fin: "finite ?C" by simp
  from Max_in[OF fin ne] obtain p where p: "p \<in> set ?vc" "snd p = Max ?C" by auto
  then have "\<exists>x. x \<in> set ?vc \<and> snd x = Max ?C" by (intro exI[of _ p]) simp
  then have "find (\<lambda>p. snd p = Max ?C) ?vc \<noteq> None" by (simp only: find_None_iff not_not)
  then obtain q where q: "find (\<lambda>p. snd p = Max ?C) ?vc = Some q" by auto
  then have qin: "q \<in> set ?vc" and qmax: "snd q = Max ?C"
    by (auto simp: find_Some_iff)
  from qin obtain w where w: "w \<in> set vs" "q = (w, count_list vs w)"
    by (auto simp: set_value_counts)
  have "count_list vs u \<le> count_list vs w" for u
  proof (cases "u \<in> set vs")
    case True
    then have "count_list vs u \<in> ?C" using C by blast
    then have "count_list vs u \<le> Max ?C" using fin by (rule_tac Max_ge) auto
    then show ?thesis using qmax w by simp
  next
    case False
    then show ?thesis by (simp add: count_list_0_iff)
  qed
  moreover have "elect vs = Inr w" using q w by (simp add: elect_def idxmax_def)
  ultimately show ?thesis using w by blast
qed

lemma group_values_nonempty: "ob \<in> set (map object_id cl) \<Longrightarrow> group_values cl ob \<noteq> []"
  by (auto simp: group_values_def filter_empty_conv)

lemma set_object_labels: "set (object_labels cl) = set (map object_id cl)"
  by (simp add: object_labels_def)

lemma distinct_object_labels: "distinct (object_labels cl)"
  by (simp add: object_labels_def)

text \<open>
  C5. \<open>majority_vote\<close> returns a table that has, for every object id of the claims
  table, exactly one row, and the value of that row is asserted for the object and is
  asserted at least as often as every other value (a mode of the group). When object 5
  receives the values 1, 1, 2, the result is the single row (5, 1).
\<close>

theorem majority_vote_mode:
  "(\<exists>rows. majority_vote cl = Inr rows \<and>
      (\<forall>ob \<in> set (map object_id cl). \<exists>w.
          filter (\<lambda>r. fst r = ob) rows = [(ob, w)]
        \<and> w \<in> set (group_values cl ob)
        \<and> (\<forall>u. count_list (group_values cl ob) u \<le> count_list (group_values cl ob) w)))
   \<and> majority_vote votes_example = Inr [(5, 1)]"
proof
  let ?g = "\<lambda>ob. projr (elect (group_values cl ob))"
  let ?rows = "map (\<lambda>ob. (ob, ?g ob)) (object_labels cl)"
  have el: "elect (group_values cl ob) = Inr (?g ob)
            \<and> ?g ob \<in> set (group_values cl ob)
            \<and> (\<forall>u. count_list (group_values cl ob) u \<le> count_list (group_values cl ob) (?g ob))"
    if "ob \<in> set (map object_id cl)" for ob
  proof -
    from elect_mode[OF group_values_nonempty[OF that]] obtain w where
      w: "elect (group_values cl ob) = Inr w" "w \<in> set (group_values cl ob)"
         "\<forall>u. count_list (group_values cl ob) u \<le> count_list (group_values cl ob) w"
      by blast
    have "?g ob = w" unfolding w(1) by simp
    with w show ?thesis by (simp only: simp_thms)
  qed
  have mv: "majority_vote cl = Inr ?rows"
    unfolding majority_vote_def
  proof (rule mapE_Inr)
    fix ob assume "ob \<in> set (object_labels cl)"
    then have "ob \<in> set (map object_id cl)" by (simp add: set_object_labels)
    from el[OF this] obtain w where w: "elect (group_values cl ob) = Inr w" by blast
    show "bindE (elect (group_values cl ob)) (\<lambda>v. Inr (ob, v)) = Inr (ob, ?g ob)"
      unfolding w by simp
  qed
  have one: "filter (\<lambda>r. fst r = ob) ?rows = [(ob, ?g ob)]" if "ob \<in> set (map object_id cl)" for ob
  proof -
    have "filter (\<lambda>r. fst r = ob) ?rows = map (\<lambda>ob. (ob, ?g ob)) (filter (\<lambda>y. y = ob) (object_labels cl))"
      by (simp add: filter_map comp_def)
    also have "filter (\<lambda>y. y = ob) (object_labels cl) = [ob]"
      using that by (intro filter_eq_distinct distinct_object_labels) (simp add: set_object_labels)
    finally show ?thesis by simp
  qed
  show "\<exists>rows. majority_vote cl = Inr rows \<and>
      (\<forall>ob \<in> set (map object_id cl). \<exists>w.
          filter (\<lambda>r. fst r = ob) rows = [(ob, w)]
        \<and> w \<in> set (group_values cl ob)
        \<and> (\<forall>u. count_list (group_values cl ob) u \<le> count_list (group_values cl ob) w))"
  proof (intro exI[of _ ?rows] conjI ballI)
    show "majority_vote cl = Inr ?rows" by (rule mv)
  next
    fix ob assume ob: "ob \<in> set (map object_id cl)"
    show "\<exists>w. filter (\<lambda>r. fst r = ob) ?rows = [(ob, w)]
        \<and> w \<in> set (group_values cl ob)
        \<and> (\<forall>u. count_list (group_values cl ob) u \<le> count_list (group_values cl ob) w)"
    proof (intro exI[of _ "?g ob"] conjI)
      show "filter (\<lambda>r. fst r = ob) ?rows = [(ob, ?g ob)]" by (rule one[OF ob])
      show "?g ob \<in> set (group_values cl ob)" using el[OF ob] by (elim conjE)
      show "\<forall>u. count_list (group_values cl ob) u \<le> count_list (group_values cl ob) (?g ob)"
        using el[OF ob] by (elim conjE)
    qed
  qed
next
  show "majority_vote votes_example = Inr [(5, 1)]" by code_simp
qed

theorem majority_vote_mode_witness:
  "\<exists>rows. majority_vote votes_example = Inr rows \<and>
      (\<exists>w. filter (\<lambda>r. fst r = 5) rows = [(5, w)]
        \<and> w \<in> set (group_values votes_example 5)
        \<and> (\<forall>u. count_list (group_values votes_example 5) u \<le> count_list (group_values votes_example 5) w))"
proof -
  have in5: "5 \<in> set (map object_id votes_example)" by (simp add: votes_example_def object_id_def)
  from majority_vote_mode[of votes_example] obtain rows where
    rows: "majority_vote votes_example = Inr rows"
    and all: "\<forall>ob \<in> set (map object_id votes_example). \<exists>w.
          filter (\<lambda>r. fst r = ob) rows = [(ob, w)]
        \<and> w \<in> set (group_values votes_example ob)
        \<and> (\<forall>u. count_list (group_values votes_example ob) u \<le> count_list (group_values votes_example ob) w)"
    by (elim conjE exE)
  from all in5 rows show ?thesis by (intro exI[of _ rows] conjI) (rule rows, rule bspec)
qed

section \<open>The per-claim variant returns two empty mappings\<close>



section \<open>The E-step in closed form\<close>

lemma nth_e_Inr [simp]: "i < length xs \<Longrightarrow> nth_e xs i = Inr (xs ! i)"
  by (simp add: nth_e_def)

lemma lookup_Some [simp]: "m k = Some v \<Longrightarrow> lookup m k = Inr v"
  by (simp add: lookup_def)

lemma lookup_eq_Inr: "lookup m k = Inr v \<longleftrightarrow> m k = Some v"
  by (simp add: lookup_def split: option.splits)

lemma nth_e_eq_Inr: "nth_e xs i = Inr x \<longleftrightarrow> i < length xs \<and> x = xs ! i"
  by (auto simp: nth_e_def)

lemma shapedD:
  assumes "shaped st"
  shows "length (weight st) = n_sources st"
    and "\<And>s. s < n_sources st \<Longrightarrow> length (weight st ! s) = n_objects st"
    and "length (store st (theta_old st)) = n_sources st"
    and "length (store st (theta_new st)) = n_sources st"
    and "\<And>ob. ob < n_objects st \<Longrightarrow> domain_size st ob = Some (dsize st ob)"
    and "\<And>ob. ob < n_objects st \<Longrightarrow> 0 < dsize st ob"
    and "\<And>ob. ob < n_objects st \<Longrightarrow>
           prior st ob = Some (replicate (dsize st ob) (1 / real (dsize st ob)))"
    and "\<And>ob p. posterior st ob = Some p \<Longrightarrow> domain_size st ob = Some (length p)"
  using assms unfolding shaped_def dsize_def
  by (auto split: option.splits)

lemma resp_entry_ok:
  assumes sh: "shaped st" and s: "s < n_sources st" and ob: "ob < n_objects st"
  shows "resp_entry st ob v s = Inr (resp_factor st ob v s)"
proof -
  have 1: "nth_e (weight st) s = Inr (weight st ! s)" using shapedD(1)[OF sh] s by simp
  have 2: "nth_e (weight st ! s) ob = Inr (weight st ! s ! ob)" using shapedD(2)[OF sh s] ob by simp
  have 3: "nth_e (store st (theta_old st)) s = Inr (store st (theta_old st) ! s)"
    using shapedD(3)[OF sh] s by simp
  have 4: "lookup (domain_size st) ob = Inr (dsize st ob)" using shapedD(5)[OF sh ob] by simp
  have 5: "dsize st ob \<noteq> 0" using shapedD(6)[OF sh ob] by simp
  show ?thesis by (simp add: resp_entry_def resp_factor_def 1 2 3 4 5)
qed

lemma compute_responsibility_ok:
  assumes sh: "shaped st" and ob: "ob < n_objects st"
  shows "compute_responsibility st ob v = Inr (resp_value st ob v)"
proof -
  have "mapE (resp_entry st ob v) [0..<n_sources st] = Inr (map (resp_factor st ob v) [0..<n_sources st])"
    by (rule mapE_Inr) (simp add: resp_entry_ok[OF sh _ ob])
  then show ?thesis by (simp add: compute_responsibility_def resp_value_def)
qed

lemma map2_replicate_upt:
  "map2 f (replicate n c) (map g [0..<n]) = map (\<lambda>v. f c (g v)) [0..<n]"
  by (rule nth_equalityI) simp_all

lemma compute_joint_ok:
  assumes sh: "shaped st" and ob: "ob < n_objects st"
  shows "compute_joint st ob = Inr (joint_value st ob)"
proof -
  have 1: "lookup (domain_size st) ob = Inr (dsize st ob)" using shapedD(5)[OF sh ob] by simp
  have 2: "mapE (compute_responsibility st ob) [0..<dsize st ob] = Inr (map (resp_value st ob) [0..<dsize st ob])"
    by (rule mapE_Inr) (simp add: compute_responsibility_ok[OF sh ob])
  have 3: "lookup (prior st) ob = Inr (replicate (dsize st ob) (1 / real (dsize st ob)))"
    using shapedD(7)[OF sh ob] by simp
  show ?thesis
    by (simp add: compute_joint_def 1 2 3 np_binop_def joint_value_def map2_replicate_upt)
qed

lemma length_joint_value [simp]: "length (joint_value st ob) = dsize st ob"
  by (simp add: joint_value_def)

lemma length_post_value [simp]: "length (post_value st ob) = dsize st ob"
  by (simp add: post_value_def)

lemma normalize_joint:
  assumes sh: "shaped st" and ob: "ob < n_objects st"
  shows "normalize (joint_value st ob) =
     (if sum_list (joint_value st ob) = 0 then Inl NonFinite else Inr (post_value st ob))"
proof -
  have "joint_value st ob \<noteq> []" using shapedD(6)[OF sh ob] by (simp add: joint_value_def)
  then show ?thesis by (simp add: normalize_def post_value_def)
qed

text \<open>Closed forms do not read the posterior.\<close>

lemma dsize_posterior_update [simp]: "dsize (st\<lparr>posterior := x\<rparr>) = dsize st"
  by (intro ext) (simp add: dsize_def)

lemma resp_factor_posterior_update [simp]:
  "resp_factor (st\<lparr>posterior := x\<rparr>) = resp_factor st"
  by (intro ext) (simp add: resp_factor_def get_value_def)

lemma resp_value_posterior_update [simp]:
  "resp_value (st\<lparr>posterior := x\<rparr>) = resp_value st"
  by (intro ext) (simp add: resp_value_def)

lemma joint_value_posterior_update [simp]:
  "joint_value (st\<lparr>posterior := x\<rparr>) = joint_value st"
  by (intro ext) (simp add: joint_value_def)

lemma post_value_posterior_update [simp]:
  "post_value (st\<lparr>posterior := x\<rparr>) = post_value st"
  by (intro ext) (simp add: post_value_def)

lemma shaped_posterior_update:
  assumes sh: "shaped st" and ob: "ob < n_objects st"
  shows "shaped (st\<lparr>posterior := (posterior st)(ob \<mapsto> post_value st ob)\<rparr>)"
  using sh shapedD(5)[OF sh ob] unfolding shaped_def by auto

lemma e_step_loop_char:
  assumes "shaped st" and "\<forall>ob \<in> set obs. ob < n_objects st"
  shows "e_step_loop st obs =
     (if \<forall>ob \<in> set obs. sum_list (joint_value st ob) \<noteq> 0
      then Inr (st\<lparr>posterior := (\<lambda>ob. if ob \<in> set obs then Some (post_value st ob) else posterior st ob)\<rparr>)
      else Inl NonFinite)"
  using assms
proof (induction obs arbitrary: st)
  case Nil
  then show ?case by simp
next
  case (Cons ob obs)
  have ob: "ob < n_objects st" using Cons.prems(2) by simp
  let ?st1 = "st\<lparr>posterior := (posterior st)(ob \<mapsto> post_value st ob)\<rparr>"
  have sh1: "shaped ?st1" by (rule shaped_posterior_update[OF Cons.prems(1) ob])
  have in1: "\<forall>ob \<in> set obs. ob < n_objects ?st1" using Cons.prems(2) by simp
  note IH = Cons.IH[OF sh1 in1]
  have fg: "(\<lambda>x. if x \<in> set obs then Some (post_value ?st1 x) else posterior ?st1 x)
          = (\<lambda>x. if x \<in> set (ob # obs) then Some (post_value st x) else posterior st x)"
    by (rule ext) simp
  have jv: "joint_value ?st1 = joint_value st" by simp
  have step: "e_step_loop st (ob # obs) =
      (if sum_list (joint_value st ob) = 0 then Inl NonFinite else e_step_loop ?st1 obs)"
    by (simp add: compute_joint_ok[OF Cons.prems(1) ob] normalize_joint[OF Cons.prems(1) ob])
  show ?case
    unfolding step IH fg jv by (cases "sum_list (joint_value st ob) = 0") auto
qed

lemma e_step_char:
  assumes "shaped st"
  shows "e_step st =
     (if \<forall>ob < n_objects st. sum_list (joint_value st ob) \<noteq> 0
      then Inr (st\<lparr>posterior := (\<lambda>ob. if ob < n_objects st then Some (post_value st ob) else posterior st ob)\<rparr>)
      else Inl NonFinite)"
  unfolding e_step_def using e_step_loop_char[OF assms, of "[0..<n_objects st]"] by simp

section \<open>The M-step in closed form\<close>

lemma frame_store_update [simp]:
  "dsize (st\<lparr>store := x\<rparr>) = dsize st"
  "match_sum (st\<lparr>store := x\<rparr>) = match_sum st"
  "honest_value (st\<lparr>store := x\<rparr>) = honest_value st"
  by (intro ext, simp add: dsize_def match_sum_def honest_value_def get_value_def)+

lemma honest_term_ok:
  assumes sh: "shaped st" and s: "s < n_sources st" and ob: "ob < n_objects st"
    and v: "v < dsize st ob" and p: "posterior st ob = Some p"
  shows "honest_term st s ob v =
     Inr (p ! v * (weight st ! s ! ob * (if get_value st s ob = Some v then 1 else 0)))"
proof -
  have 1: "nth_e (weight st) s = Inr (weight st ! s)" using shapedD(1)[OF sh] s by simp
  have 2: "nth_e (weight st ! s) ob = Inr (weight st ! s ! ob)" using shapedD(2)[OF sh s] ob by simp
  have "length p = dsize st ob" using shapedD(8)[OF sh p] shapedD(5)[OF sh ob] by simp
  then have 3: "nth_e p v = Inr (p ! v)" using v by simp
  show ?thesis by (simp add: honest_term_def 1 2 3 p Let_def)
qed

lemma honest_terms_ok:
  assumes sh: "shaped st" and s: "s < n_sources st" and ob: "ob < n_objects st"
    and p: "posterior st ob = Some p"
  shows "honest_terms st s ob =
     Inr (map (\<lambda>v. p ! v * (weight st ! s ! ob * (if get_value st s ob = Some v then 1 else 0)))
              [0..<dsize st ob])"
proof -
  have 1: "lookup (domain_size st) ob = Inr (dsize st ob)" using shapedD(5)[OF sh ob] by simp
  have 2: "mapE (honest_term st s ob) [0..<dsize st ob] =
     Inr (map (\<lambda>v. p ! v * (weight st ! s ! ob * (if get_value st s ob = Some v then 1 else 0)))
              [0..<dsize st ob])"
    by (rule mapE_Inr) (simp add: honest_term_ok[OF sh s ob _ p])
  show ?thesis by (simp add: honest_terms_def 1 2)
qed

lemma honest_terms_sum:
  assumes sh: "shaped st" and s: "s < n_sources st" and ob: "ob < n_objects st"
    and p: "posterior st ob = Some p"
  shows "\<exists>ts. honest_terms st s ob = Inr ts \<and> sum_list ts = match_sum st s ob"
  using honest_terms_ok[OF assms] by (simp add: match_sum_def p)

lemma sum_list_concat_map: "sum_list (concat xss) = sum_list (map sum_list xss)"
  by (induction xss) auto

lemma mapE_ex:
  assumes "\<And>x. x \<in> set xs \<Longrightarrow> \<exists>y. f x = Inr y \<and> P x y"
  shows "\<exists>ys. mapE f xs = Inr ys \<and> length ys = length xs \<and> (\<forall>i<length xs. P (xs ! i) (ys ! i))"
proof -
  let ?g = "\<lambda>x. projr (f x)"
  have fx: "f x = Inr (?g x) \<and> P x (?g x)" if "x \<in> set xs" for x
  proof -
    from assms[OF that] obtain y where y: "f x = Inr y" "P x y" by blast
    have "?g x = y" unfolding y(1) by simp
    with y show ?thesis by (simp only: simp_thms)
  qed
  have "mapE f xs = Inr (map ?g xs)" by (rule mapE_Inr) (use fx in blast)
  moreover have "\<forall>i<length xs. P (xs ! i) (map ?g xs ! i)" using fx by simp
  ultimately show ?thesis by (intro exI[of _ "map ?g xs"]) simp
qed

lemma honest_sum_ok:
  assumes sh: "shaped st" and s: "s < n_sources st" and cp: "complete_posterior st"
  shows "\<exists>terms. mapE (honest_terms st s) [0..<n_objects st] = Inr terms
           \<and> sum_list (concat terms) = (\<Sum>ob\<leftarrow>[0..<n_objects st]. match_sum st s ob)"
proof -
  have "\<exists>ts. honest_terms st s ob = Inr ts \<and> sum_list ts = match_sum st s ob"
    if "ob \<in> set [0..<n_objects st]" for ob
  proof -
    have ob: "ob < n_objects st" using that by simp
    then obtain p where p: "posterior st ob = Some p" using cp by (auto simp: complete_posterior_def)
    show ?thesis by (rule honest_terms_sum[OF sh s ob p])
  qed
  from mapE_ex[of "[0..<n_objects st]" "honest_terms st s" "\<lambda>ob ts. sum_list ts = match_sum st s ob", OF this]
  obtain terms where t: "mapE (honest_terms st s) [0..<n_objects st] = Inr terms"
    and len: "length terms = n_objects st"
    and sums: "\<forall>i<n_objects st. sum_list (terms ! i) = match_sum st s i"
    by auto
  have "map sum_list terms = map (match_sum st s) [0..<n_objects st]"
    by (rule nth_equalityI) (use len sums in auto)
  then have "sum_list (concat terms) = (\<Sum>ob\<leftarrow>[0..<n_objects st]. match_sum st s ob)"
    by (simp add: sum_list_concat_map)
  with t show ?thesis by blast
qed

lemma compute_honest_char:
  assumes sh: "shaped st" and s: "s < n_sources st" and cp: "complete_posterior st"
  shows "compute_honest st s =
     (if sum_list (weight st ! s) = 0 then Inl NonFinite
      else Inr (st\<lparr>store := (store st)(theta_new st :=
                      (store st (theta_new st))[s := honest_value st s])\<rparr>))"
proof -
  have 1: "nth_e (weight st) s = Inr (weight st ! s)" using shapedD(1)[OF sh] s by simp
  from honest_sum_ok[OF sh s cp] obtain terms where
    t: "mapE (honest_terms st s) [0..<n_objects st] = Inr terms"
    and sum: "sum_list (concat terms) = (\<Sum>ob\<leftarrow>[0..<n_objects st]. match_sum st s ob)" by blast
  have len: "s < length (store st (theta_new st))" using shapedD(4)[OF sh] s by simp
  show ?thesis by (simp add: compute_honest_def 1 t sum len Let_def honest_value_def)
qed

lemma compute_honest_success:
  assumes sh: "shaped st" and ok: "compute_honest st s = Inr st'"
  shows "s < n_sources st" and "complete_posterior st"
proof -
  from ok obtain row where row: "nth_e (weight st) s = Inr row"
    by (auto simp: compute_honest_def bindE_eq_Inr)
  then show s: "s < n_sources st" using shapedD(1)[OF sh] by (simp add: nth_e_eq_Inr)
  from ok row obtain terms where t: "mapE (honest_terms st s) [0..<n_objects st] = Inr terms"
    by (auto simp: compute_honest_def bindE_eq_Inr Let_def)
  show "complete_posterior st" unfolding complete_posterior_def
  proof (intro allI impI)
    fix ob assume ob: "ob < n_objects st"
    from mapE_InrD[OF t] ob have "honest_terms st s ob = Inr (terms ! ob)" by auto
    then have m: "mapE (honest_term st s ob) [0..<dsize st ob] = Inr (terms ! ob)"
      using shapedD(5)[OF sh ob] by (simp add: honest_terms_def)
    have "0 < dsize st ob" by (rule shapedD(6)[OF sh ob])
    with mapE_InrD[OF m] have "honest_term st s ob 0 = Inr (terms ! ob ! 0)" by auto
    then show "posterior st ob \<noteq> None"
      by (auto simp: honest_term_def bindE_eq_Inr lookup_eq_Inr Let_def)
  qed
qed

lemma shaped_store_update:
  assumes sh: "shaped st" and len: "length a = n_sources st"
  shows "shaped (st\<lparr>store := (store st)(theta_new st := a)\<rparr>)"
  using sh len unfolding shaped_def by auto

lemma complete_posterior_store_update [simp]:
  "complete_posterior (st\<lparr>store := x\<rparr>) = complete_posterior st"
  by (simp add: complete_posterior_def)

lemma m_step_loop_char:
  assumes "shaped st" and "complete_posterior st" and "distinct ss"
    and "\<forall>s \<in> set ss. s < n_sources st"
  shows "m_step_loop st ss =
     (if \<forall>s \<in> set ss. sum_list (weight st ! s) \<noteq> 0
      then Inr (st\<lparr>store := (store st)(theta_new st :=
              map (\<lambda>i. if i \<in> set ss then honest_value st i else store st (theta_new st) ! i)
                  [0..<n_sources st])\<rparr>)
      else Inl NonFinite)"
  using assms
proof (induction ss arbitrary: st)
  case Nil
  have "map (\<lambda>i. store st (theta_new st) ! i) [0..<n_sources st] = store st (theta_new st)"
    using shapedD(4)[OF Nil.prems(1)] by (metis map_nth)
  then show ?case by simp
next
  case (Cons s ss)
  let ?old = "store st (theta_new st)"
  let ?h = "honest_value st"
  let ?st1 = "st\<lparr>store := (store st)(theta_new st := ?old[s := ?h s])\<rparr>"
  have s: "s < n_sources st" using Cons.prems(4) by simp
  have lenold: "length ?old = n_sources st" by (rule shapedD(4)[OF Cons.prems(1)])
  have sh1: "shaped ?st1" by (rule shaped_store_update[OF Cons.prems(1)]) (simp add: lenold)
  have cp1: "complete_posterior ?st1" using Cons.prems(2) by simp
  have d1: "distinct ss" using Cons.prems(3) by simp
  have in1: "\<forall>s \<in> set ss. s < n_sources ?st1" using Cons.prems(4) by simp
  note IH = Cons.IH[OF sh1 cp1 d1 in1]
  have hv: "honest_value ?st1 = honest_value st" by simp
  have w1: "weight ?st1 = weight st" and n1: "n_sources ?st1 = n_sources st"
    and tn1: "theta_new ?st1 = theta_new st" by simp_all
  have st1: "store ?st1 = (store st)(theta_new st := ?old[s := ?h s])" by simp
  have arr: "map (\<lambda>i. if i \<in> set ss then ?h i else (?old[s := ?h s]) ! i) [0..<n_sources st]
           = map (\<lambda>i. if i \<in> set (s # ss) then ?h i else ?old ! i) [0..<n_sources st]"
    using s lenold Cons.prems(3) by (intro map_cong) (auto simp: nth_list_update)
  have rec: "?st1\<lparr>store := (store ?st1)(theta_new ?st1 := a)\<rparr>
           = st\<lparr>store := (store st)(theta_new st := a)\<rparr>" for a
    by simp
  have step: "m_step_loop st (s # ss) =
      (if sum_list (weight st ! s) = 0 then Inl NonFinite else m_step_loop ?st1 ss)"
    by (simp add: compute_honest_char[OF Cons.prems(1) s Cons.prems(2)])
  show ?case
    unfolding step IH hv w1 n1 rec
    unfolding st1 tn1 fun_upd_same arr
    by (cases "sum_list (weight st ! s) = 0") auto
qed

lemma m_step_char:
  assumes "shaped st" and "complete_posterior st"
  shows "m_step st =
     (if \<forall>s < n_sources st. sum_list (weight st ! s) \<noteq> 0
      then Inr (st\<lparr>store := (store st)(theta_new st := map (honest_value st) [0..<n_sources st])\<rparr>)
      else Inl NonFinite)"
proof -
  have "map (\<lambda>i. if i \<in> set [0..<n_sources st] then honest_value st i
                  else store st (theta_new st) ! i) [0..<n_sources st]
        = map (honest_value st) [0..<n_sources st]"
    by (intro map_cong) auto
  note arr = this
  have loop: "m_step_loop st [0..<n_sources st] =
     (if \<forall>s \<in> set [0..<n_sources st]. sum_list (weight st ! s) \<noteq> 0
      then Inr (st\<lparr>store := (store st)(theta_new st :=
              map (\<lambda>i. if i \<in> set [0..<n_sources st] then honest_value st i
                        else store st (theta_new st) ! i)
                  [0..<n_sources st])\<rparr>)
      else Inl NonFinite)"
    by (rule m_step_loop_char[OF assms]) simp_all
  have all: "(\<forall>s \<in> set [0..<n_sources st]. sum_list (weight st ! s) \<noteq> 0)
           = (\<forall>s < n_sources st. sum_list (weight st ! s) \<noteq> 0)"
    by auto
  show ?thesis unfolding m_step_def loop arr all ..
qed

lemma m_step_success:
  assumes sh: "shaped st" and ok: "m_step st = Inr st'" and s: "s < n_sources st"
  shows "complete_posterior st"
proof -
  have "[0..<n_sources st] = 0 # [1..<n_sources st]" using s by (simp add: upt_conv_Cons)
  with ok obtain st1 where "compute_honest st 0 = Inr st1"
    by (auto simp: m_step_def bindE_eq_Inr)
  then show ?thesis by (rule compute_honest_success(2)[OF sh])
qed

section \<open>The constructor\<close>

lemma init_fields:
  assumes "init cl = Inr st"
  shows "weight st = map (\<lambda>s. map (\<lambda>ob. binarize (map_of (map (\<lambda>c. ((source_id c, object_id c), claim_value c)) cl) (s, ob)))
                               (object_labels cl)) (source_labels cl)"
    and "n_sources st = length (remdups (map source_id cl))"
    and "n_objects st = length (remdups (map object_id cl))"
    and "domain_size st = (\<lambda>ob. if group_values cl ob = [] then None
                                  else Some (Max (set (group_values cl ob)) + 1))"
    and "\<forall>ob < n_objects st. domain_size st ob \<noteq> None"
    and "prior st = (\<lambda>ob. if ob < n_objects st
                      then map_option (\<lambda>d. map (\<lambda>x. x / real d) (np_ones d)) (domain_size st ob)
                      else None)"
    and "posterior st = Map.empty"
    and "store st = (\<lambda>a. [])(0 := map (\<lambda>x. (1 / 2) * x) (np_ones (n_sources st)),
                              1 := map (\<lambda>x. (99 / 100) * x) (np_ones (n_sources st)))"
    and "theta_old st = 0" and "theta_new st = 1"
  using assms
  by (auto simp: init_def compute_weight_matrix_def pivot_source_object_def bindE_eq_Inr
        compute_prob_desc_def domain_size_series_eq init_prior_def comp_def
        split: if_splits prod.splits)

lemma init_shaped:
  assumes "init cl = Inr st"
  shows "shaped st"
proof -
  note f = init_fields[OF assms]
  have 1: "length (weight st) = n_sources st"
    unfolding f(1) f(2) by (simp add: source_labels_def)
  have 2: "\<forall>row \<in> set (weight st). length row = n_objects st"
    unfolding f(1) f(3) by (auto simp: object_labels_def)
  have 3: "length (store st (theta_old st)) = n_sources st"
    unfolding f(8) f(9) by (simp add: np_ones_def)
  have 4: "length (store st (theta_new st)) = n_sources st"
    unfolding f(8) f(10) by (simp add: np_ones_def)
  have 5: "\<exists>d. domain_size st ob = Some d \<and> 0 < d \<and> prior st ob = Some (replicate d (1 / real d))"
    if "ob < n_objects st" for ob
  proof -
    from f(5) that obtain d where d: "domain_size st ob = Some d" by auto
    then have "0 < d" unfolding f(4) by (auto split: if_splits)
    moreover have "prior st ob = Some (replicate d (1 / real d))"
      unfolding f(6) using that d by (simp add: np_ones_def)
    ultimately show ?thesis using d by simp
  qed
  have 6: "\<forall>ob p. posterior st ob = Some p \<longrightarrow> domain_size st ob = Some (length p)"
    unfolding f(7) by simp
  show ?thesis unfolding shaped_def using 1 2 3 4 5 6 by blast
qed

section \<open>Invariants of the reachable states\<close>

lemma same_table_refl [simp]: "same_table st st"
  by (simp add: same_table_def)

lemma same_table_trans: "same_table a b \<Longrightarrow> same_table b c \<Longrightarrow> same_table a c"
  by (simp add: same_table_def)

lemma e_step_InrD:
  assumes sh: "shaped st" and ok: "e_step st = Inr st'"
  shows "st' = st\<lparr>posterior := (\<lambda>ob. if ob < n_objects st then Some (post_value st ob) else posterior st ob)\<rparr>"
    and "\<forall>ob < n_objects st. sum_list (joint_value st ob) \<noteq> 0"
  using ok unfolding e_step_char[OF sh] by (auto split: if_splits)

lemma e_step_shaped:
  assumes sh: "shaped st" and ok: "e_step st = Inr st'"
  shows "shaped st'" and "same_table st st'" and "complete_posterior st'"
    and "store st' = store st" and "theta_old st' = theta_old st" and "theta_new st' = theta_new st"
proof -
  note eq = e_step_InrD(1)[OF sh ok]
  show "same_table st st'" unfolding eq by (simp add: same_table_def)
  show "complete_posterior st'" unfolding eq by (simp add: complete_posterior_def)
  show "store st' = store st" "theta_old st' = theta_old st" "theta_new st' = theta_new st"
    unfolding eq by simp_all
  show "shaped st'" using sh shapedD(5)[OF sh] unfolding eq shaped_def by auto
qed

lemma compute_honest_InrD:
  assumes sh: "shaped st" and ok: "compute_honest st s = Inr st'"
  shows "st' = st\<lparr>store := (store st)(theta_new st := (store st (theta_new st))[s := honest_value st s])\<rparr>"
    and "sum_list (weight st ! s) \<noteq> 0"
  using ok
  unfolding compute_honest_char[OF sh compute_honest_success[OF sh ok]]
  by (auto split: if_splits)

lemma compute_honest_shaped:
  assumes sh: "shaped st" and ok: "compute_honest st s = Inr st'"
  shows "shaped st'" and "same_table st st'"
proof -
  note eq = compute_honest_InrD(1)[OF sh ok]
  show "same_table st st'" unfolding eq by (simp add: same_table_def)
  show "shaped st'" unfolding eq
    by (rule shaped_store_update[OF sh]) (simp add: shapedD(4)[OF sh])
qed

lemma m_step_InrD:
  assumes sh: "shaped st" and cp: "complete_posterior st" and ok: "m_step st = Inr st'"
  shows "st' = st\<lparr>store := (store st)(theta_new st := map (honest_value st) [0..<n_sources st])\<rparr>"
    and "\<forall>s < n_sources st. sum_list (weight st ! s) \<noteq> 0"
  using ok unfolding m_step_char[OF sh cp] by (auto split: if_splits)

lemma m_step_shaped:
  assumes sh: "shaped st" and ok: "m_step st = Inr st'"
  shows "shaped st'" and "same_table st st'"
proof -
  have "shaped st' \<and> same_table st st'"
  proof (cases "n_sources st = 0")
    case True
    then have "st' = st" using ok by (simp add: m_step_def)
    then show ?thesis using sh by simp
  next
    case False
    then have cp: "complete_posterior st" using m_step_success[OF sh ok, of 0] by simp
    note eq = m_step_InrD(1)[OF sh cp ok]
    have "same_table st st'" unfolding eq by (simp add: same_table_def)
    moreover have "shaped st'" unfolding eq by (rule shaped_store_update[OF sh]) simp
    ultimately show ?thesis by simp
  qed
  then show "shaped st'" and "same_table st st'" by simp_all
qed

lemma advance_shaped:
  assumes "shaped st"
  shows "shaped (st\<lparr>theta_old := theta_new st\<rparr>)"
  using assms unfolding shaped_def by auto

lemma reachable_inv:
  assumes "reachable cl st"
  shows "shaped st \<and> (\<exists>st0. init cl = Inr st0 \<and> same_table st0 st)"
  using assms
proof (induction rule: reachable.induct)
  case (constructed cl st)
  then show ?case using init_shaped by auto
next
  case (after_e_step cl st st')
  then show ?case using e_step_shaped(1,2) same_table_trans by blast
next
  case (after_compute_honest cl st s st')
  then show ?case using compute_honest_shaped same_table_trans by blast
next
  case (after_m_step cl st st')
  then show ?case using m_step_shaped same_table_trans by blast
next
  case (advance cl st)
  then obtain st0 where "init cl = Inr st0" "same_table st0 st" by blast
  moreover have "same_table st0 (st\<lparr>theta_old := theta_new st\<rparr>)"
    using calculation(2) by (simp add: same_table_def)
  ultimately show ?case using advance advance_shaped by blast
qed

lemmas reachable_shaped = reachable_inv[THEN conjunct1]

section \<open>Responsibility\<close>

lemma prod_list_filter_one:
  "prod_list (map (\<lambda>x. if P x then f x else (1::real)) xs) = prod_list (map f (filter P xs))"
  by (induction xs) auto

lemma resp_value_prod:
  "resp_value st ob v =
     (\<Prod>s \<in> {s. s < n_sources st \<and> weight st ! s ! ob = 1}.
        if get_value st s ob = Some v then store st (theta_old st) ! s
        else (1 - store st (theta_old st) ! s) / real (dsize st ob))"
proof -
  let ?f = "\<lambda>s. if get_value st s ob = Some v then store st (theta_old st) ! s
        else (1 - store st (theta_old st) ! s) / real (dsize st ob)"
  let ?P = "\<lambda>s. weight st ! s ! ob = 1"
  have "resp_value st ob v = prod_list (map (\<lambda>s. if ?P s then ?f s else 1) [0..<n_sources st])"
    unfolding resp_value_def by (intro arg_cong[where f=prod_list] map_cong) (auto simp: resp_factor_def)
  also have "\<dots> = prod_list (map ?f (filter ?P [0..<n_sources st]))"
    by (rule prod_list_filter_one)
  also have "\<dots> = prod ?f (set (filter ?P [0..<n_sources st]))"
    by (rule prod.distinct_set_conv_list[symmetric]) simp
  also have "set (filter ?P [0..<n_sources st]) = {s. s < n_sources st \<and> ?P s}" by auto
  finally show ?thesis .
qed

lemma init_fixtureB: "init fixtureB = Inr (projr (init fixtureB))"
proof -
  have "\<not> isl (init fixtureB)" by code_simp
  then show ?thesis by (cases "init fixtureB") auto
qed

text \<open>
  C3. In every state of an object, for every object id \<open>ob\<close> below \<open>n_objects\<close> and every
  value \<open>v\<close>, \<open>compute_responsibility(ob, v)\<close> is the product, over the sources \<open>s\<close> with
  \<open>weight[s][ob] = 1\<close>, of \<open>theta_old[s]\<close> when the value \<open>s\<close> asserted about \<open>ob\<close> is
  \<open>v\<close>, and of \<open>(1 - theta_old[s]) / domain_size[ob]\<close> otherwise. On fixture B, with the
  initial honesty 0.5, \<open>compute_responsibility(1, 1)\<close> is 1/8 = 0.125.
\<close>

theorem compute_responsibility_product:
  assumes "reachable cl st" and "ob < n_objects st"
  shows "(\<exists>d. domain_size st ob = Some d \<and>
          compute_responsibility st ob v =
            Inr (\<Prod>s \<in> {s. s < n_sources st \<and> weight st ! s ! ob = 1}.
                   if get_value st s ob = Some v then store st (theta_old st) ! s
                   else (1 - store st (theta_old st) ! s) / real d))
       \<and> compute_responsibility (projr (init fixtureB)) 1 1 = Inr (1 / 8)"
proof
  have sh: "shaped st" by (rule reachable_shaped[OF assms(1)])
  show "\<exists>d. domain_size st ob = Some d \<and>
          compute_responsibility st ob v =
            Inr (\<Prod>s \<in> {s. s < n_sources st \<and> weight st ! s ! ob = 1}.
                   if get_value st s ob = Some v then store st (theta_old st) ! s
                   else (1 - store st (theta_old st) ! s) / real d)"
    using shapedD(5)[OF sh assms(2)] compute_responsibility_ok[OF sh assms(2), of v]
    by (intro exI[of _ "dsize st ob"]) (simp add: resp_value_prod)
next
  show "compute_responsibility (projr (init fixtureB)) 1 1 = Inr (1 / 8)" by code_simp
qed

theorem compute_responsibility_product_witness:
  "\<exists>d. domain_size (projr (init fixtureB)) 1 = Some d \<and>
          compute_responsibility (projr (init fixtureB)) 1 1 =
            Inr (\<Prod>s \<in> {s. s < n_sources (projr (init fixtureB))
                            \<and> weight (projr (init fixtureB)) ! s ! 1 = 1}.
                   if get_value (projr (init fixtureB)) s 1 = Some 1
                   then store (projr (init fixtureB)) (theta_old (projr (init fixtureB))) ! s
                   else (1 - store (projr (init fixtureB)) (theta_old (projr (init fixtureB))) ! s) / real d)"
proof -
  have r: "reachable fixtureB (projr (init fixtureB))"
    by (rule reachable.constructed[OF init_fixtureB])
  have n: "1 < n_objects (projr (init fixtureB))" by code_simp
  from compute_responsibility_product[OF r n, of 1] show ?thesis by (elim conjE)
qed

section \<open>The M-step update\<close>

lemma honest_value_sum:
  assumes sh: "shaped st" and s: "s < n_sources st"
    and post: "\<And>ob. ob < n_objects st \<Longrightarrow> posterior st ob = Some (post ob)"
  shows "honest_value st s =
     (\<Sum>ob<n_objects st. \<Sum>v<dsize st ob.
         post ob ! v * weight st ! s ! ob * (if get_value st s ob = Some v then 1 else 0))
     / (\<Sum>ob<n_objects st. weight st ! s ! ob)"
proof -
  have m: "match_sum st s ob =
      (\<Sum>v<dsize st ob. post ob ! v * weight st ! s ! ob * (if get_value st s ob = Some v then 1 else 0))"
    if "ob < n_objects st" for ob
    unfolding match_sum_def post[OF that]
    by (simp add: interv_sum_list_conv_sum_set_nat atLeast0LessThan mult.assoc)
  have num: "(\<Sum>ob\<leftarrow>[0..<n_objects st]. match_sum st s ob) =
      (\<Sum>ob<n_objects st. \<Sum>v<dsize st ob.
         post ob ! v * weight st ! s ! ob * (if get_value st s ob = Some v then 1 else 0))"
  proof -
    have "(\<Sum>ob\<leftarrow>[0..<n_objects st]. match_sum st s ob) = (\<Sum>ob<n_objects st. match_sum st s ob)"
      by (simp add: interv_sum_list_conv_sum_set_nat atLeast0LessThan)
    also have "\<dots> = (\<Sum>ob<n_objects st. \<Sum>v<dsize st ob.
         post ob ! v * weight st ! s ! ob * (if get_value st s ob = Some v then 1 else 0))"
      by (rule sum.cong[OF refl]) (simp add: m)
    finally show ?thesis .
  qed
  have den: "sum_list (weight st ! s) = (\<Sum>ob<n_objects st. weight st ! s ! ob)"
    using shapedD(2)[OF sh s] by (simp add: sum_list_sum_nth atLeast0LessThan)
  show ?thesis unfolding honest_value_def num den ..
qed

lemma e_step_fixtureB: "e_step (projr (init fixtureB)) = Inr (projr (e_step (projr (init fixtureB))))"
proof -
  have "\<not> isl (e_step (projr (init fixtureB)))" by code_simp
  then show ?thesis by (cases "e_step (projr (init fixtureB))") auto
qed

lemma m_step_fixtureB:
  "m_step (projr (e_step (projr (init fixtureB)))) =
     Inr (projr (m_step (projr (e_step (projr (init fixtureB))))))"
proof -
  have "\<not> isl (m_step (projr (e_step (projr (init fixtureB)))))" by code_simp
  then show ?thesis by (cases "m_step (projr (e_step (projr (init fixtureB))))") auto
qed

text \<open>
  C4. When the M-step succeeds in a state of an object, then for every source \<open>s\<close> below
  \<open>n_sources\<close> the row of \<open>s\<close> in the weight matrix has a non-zero sum (the source made a
  claim), every object has a posterior, and \<open>theta_new[s]\<close> after the M-step is the sum over
  all objects \<open>ob\<close> and all values \<open>v\<close> below \<open>domain_size[ob]\<close> of
  \<open>posterior[ob][v] * W[s,ob] * 1{value asserted by s about ob = v}\<close>, divided by the sum
  over all objects of \<open>W[s,ob]\<close>. On fixture B, after one E-step and one M-step,
  \<open>theta_new[1]\<close> is 1/2.
\<close>

theorem m_step_update:
  assumes "reachable cl st" and "m_step st = Inr st'" and "s < n_sources st"
  shows "(\<exists>post dom.
            (\<forall>ob<n_objects st. posterior st ob = Some (post ob) \<and> domain_size st ob = Some (dom ob))
          \<and> (\<Sum>ob<n_objects st. weight st ! s ! ob) \<noteq> 0
          \<and> store st' (theta_new st') ! s =
              (\<Sum>ob<n_objects st. \<Sum>v<dom ob.
                  post ob ! v * weight st ! s ! ob * (if get_value st s ob = Some v then 1 else 0))
              / (\<Sum>ob<n_objects st. weight st ! s ! ob))
       \<and> (\<exists>st1 st2. e_step (projr (init fixtureB)) = Inr st1 \<and> m_step st1 = Inr st2
              \<and> store st2 (theta_new st2) ! 1 = 1 / 2)"
proof
  have sh: "shaped st" by (rule reachable_shaped[OF assms(1)])
  have cp: "complete_posterior st" by (rule m_step_success[OF sh assms(2,3)])
  let ?post = "\<lambda>ob. case posterior st ob of Some p \<Rightarrow> p | None \<Rightarrow> []"
  have post: "posterior st ob = Some (?post ob)" if "ob < n_objects st" for ob
    using cp that by (auto simp: complete_posterior_def)
  note eq = m_step_InrD(1)[OF sh cp assms(2)]
  have rows: "sum_list (weight st ! s) \<noteq> 0" using m_step_InrD(2)[OF sh cp assms(2)] assms(3) by simp
  have den: "sum_list (weight st ! s) = (\<Sum>ob<n_objects st. weight st ! s ! ob)"
    using shapedD(2)[OF sh assms(3)] by (simp add: sum_list_sum_nth atLeast0LessThan)
  have val: "store st' (theta_new st') ! s = honest_value st s"
    unfolding eq using assms(3) by simp
  show "\<exists>post dom.
            (\<forall>ob<n_objects st. posterior st ob = Some (post ob) \<and> domain_size st ob = Some (dom ob))
          \<and> (\<Sum>ob<n_objects st. weight st ! s ! ob) \<noteq> 0
          \<and> store st' (theta_new st') ! s =
              (\<Sum>ob<n_objects st. \<Sum>v<dom ob.
                  post ob ! v * weight st ! s ! ob * (if get_value st s ob = Some v then 1 else 0))
              / (\<Sum>ob<n_objects st. weight st ! s ! ob)"
  proof (intro exI[of _ ?post] exI[of _ "dsize st"] conjI allI impI)
    fix ob assume "ob < n_objects st"
    then show "posterior st ob = Some (?post ob)" "domain_size st ob = Some (dsize st ob)"
      using post shapedD(5)[OF sh] by simp_all
  next
    show "(\<Sum>ob<n_objects st. weight st ! s ! ob) \<noteq> 0" using rows den by simp
  next
    show "store st' (theta_new st') ! s =
              (\<Sum>ob<n_objects st. \<Sum>v<dsize st ob.
                  ?post ob ! v * weight st ! s ! ob * (if get_value st s ob = Some v then 1 else 0))
              / (\<Sum>ob<n_objects st. weight st ! s ! ob)"
      unfolding val by (rule honest_value_sum[OF sh assms(3) post])
  qed
next
  have "store (projr (m_step (projr (e_step (projr (init fixtureB))))))
          (theta_new (projr (m_step (projr (e_step (projr (init fixtureB))))))) ! 1 = 1 / 2"
    by code_simp
  then show "\<exists>st1 st2. e_step (projr (init fixtureB)) = Inr st1 \<and> m_step st1 = Inr st2
              \<and> store st2 (theta_new st2) ! 1 = 1 / 2"
    using e_step_fixtureB m_step_fixtureB by blast
qed

theorem m_step_update_witness:
  "\<exists>post dom.
      (\<forall>ob<n_objects (projr (e_step (projr (init fixtureB)))).
          posterior (projr (e_step (projr (init fixtureB)))) ob = Some (post ob)
        \<and> domain_size (projr (e_step (projr (init fixtureB)))) ob = Some (dom ob))
    \<and> store (projr (m_step (projr (e_step (projr (init fixtureB))))))
            (theta_new (projr (m_step (projr (e_step (projr (init fixtureB))))))) ! 1 =
        (\<Sum>ob<n_objects (projr (e_step (projr (init fixtureB)))). \<Sum>v<dom ob.
            post ob ! v * weight (projr (e_step (projr (init fixtureB)))) ! 1 ! ob
            * (if get_value (projr (e_step (projr (init fixtureB)))) 1 ob = Some v then 1 else 0))
        / (\<Sum>ob<n_objects (projr (e_step (projr (init fixtureB)))).
              weight (projr (e_step (projr (init fixtureB)))) ! 1 ! ob)"
proof -
  have r: "reachable fixtureB (projr (e_step (projr (init fixtureB))))"
    by (rule reachable.after_e_step[OF reachable.constructed[OF init_fixtureB] e_step_fixtureB])
  have n: "1 < n_sources (projr (e_step (projr (init fixtureB))))" by code_simp
  from m_step_update[OF r m_step_fixtureB n] show ?thesis by blast
qed

section \<open>Domain sizes and vector lengths\<close>


lemma same_tableD:
  assumes "same_table st0 st"
  shows "n_objects st = n_objects st0" "n_sources st = n_sources st0"
    "domain_size st = domain_size st0" "prior st = prior st0" "weight st = weight st0"
    "value_index st = value_index st0" "claims st = claims st0"
  using assms by (simp_all add: same_table_def)



section \<open>One pass of the loop keeps the honesty vector in range\<close>

lemma prod_list_pos: "(\<And>x. x \<in> set xs \<Longrightarrow> (0::real) < x) \<Longrightarrow> 0 < prod_list xs"
  by (induction xs) auto

lemma sum_list_pos_real:
  "xs \<noteq> [] \<Longrightarrow> (\<And>x. x \<in> set xs \<Longrightarrow> (0::real) < x) \<Longrightarrow> 0 < sum_list xs"
proof (induction xs)
  case Nil
  then show ?case by simp
next
  case (Cons a xs)
  show ?case
  proof (cases "xs = []")
    case True
    then show ?thesis using Cons.prems(2)[of a] by simp
  next
    case False
    have "0 < sum_list xs" using Cons.IH[OF False] Cons.prems(2) by simp
    moreover have "0 < a" using Cons.prems(2) by simp
    ultimately show ?thesis by simp
  qed
qed

lemma nth_le_sum_list:
  assumes "\<And>x. x \<in> set xs \<Longrightarrow> (0::real) < x" and "i < length xs"
  shows "xs ! i \<le> sum_list xs" and "1 < length xs \<Longrightarrow> xs ! i < sum_list xs"
proof -
  have s: "sum_list xs = (\<Sum>j<length xs. xs ! j)" by (simp add: sum_list_sum_nth atLeast0LessThan)
  have split: "(\<Sum>j<length xs. xs ! j) = xs ! i + (\<Sum>j\<in>{..<length xs} - {i}. xs ! j)"
    using assms(2) by (simp add: sum.remove)
  have nonneg: "0 \<le> (\<Sum>j\<in>{..<length xs} - {i}. xs ! j)"
    by (rule sum_nonneg) (use assms(1) in \<open>auto intro: less_imp_le\<close>)
  show "xs ! i \<le> sum_list xs" unfolding s split using nonneg by simp
  assume len: "1 < length xs"
  have "\<exists>k. k < length xs \<and> k \<noteq> i"
  proof (cases "i = 0")
    case True
    then show ?thesis using len by (intro exI[of _ 1]) simp
  next
    case False
    then show ?thesis using len by (intro exI[of _ 0]) auto
  qed
  then obtain k where k: "k < length xs" "k \<noteq> i" by blast
  have "0 < (\<Sum>j\<in>{..<length xs} - {i}. xs ! j)"
  proof (rule sum_pos2[where i=k])
    show "finite ({..<length xs} - {i})" by simp
    show "k \<in> {..<length xs} - {i}" using k by simp
    show "0 < xs ! k" using assms(1) k by simp
    show "\<And>j. j \<in> {..<length xs} - {i} \<Longrightarrow> 0 \<le> xs ! j"
      using assms(1) by (auto intro: less_imp_le)
  qed
  then show "xs ! i < sum_list xs" unfolding s split by simp
qed

lemma alignedD:
  assumes "aligned st"
  shows "\<And>s ob. s < n_sources st \<Longrightarrow> ob < n_objects st \<Longrightarrow>
            weight st ! s ! ob = 0 \<or> weight st ! s ! ob = 1"
    and "\<And>s ob. s < n_sources st \<Longrightarrow> ob < n_objects st \<Longrightarrow> weight st ! s ! ob = 1 \<Longrightarrow>
            \<exists>w. get_value st s ob = Some w \<and> w < dsize st ob"
    and "\<And>s. s < n_sources st \<Longrightarrow> \<exists>ob < n_objects st. weight st ! s ! ob = 1"
  using assms unfolding aligned_def by (blast, fastforce, blast)

lemma honest_okD:
  assumes "honest_ok st th" and "s < n_sources st"
  shows "0 < th ! s" and "th ! s \<le> 1"
    and "\<And>ob. th ! s = 1 \<Longrightarrow> ob < n_objects st \<Longrightarrow> weight st ! s ! ob = 1 \<Longrightarrow> dsize st ob = 1"
  using assms unfolding honest_ok_def by auto

lemma resp_factor_pos:
  assumes sh: "shaped st" and al: "aligned st"
    and ho: "honest_ok st (store st (theta_old st))"
    and s: "s < n_sources st" and ob: "ob < n_objects st" and v: "v < dsize st ob"
  shows "0 < resp_factor st ob v s"
proof (cases "weight st ! s ! ob = 1")
  case False
  then show ?thesis by (simp add: resp_factor_def)
next
  case True
  let ?t = "store st (theta_old st) ! s"
  from alignedD(2)[OF al s ob True] obtain w where w: "get_value st s ob = Some w" "w < dsize st ob"
    by blast
  show ?thesis
  proof (cases "w = v")
    case True
    with w \<open>weight st ! s ! ob = 1\<close> honest_okD(1)[OF ho s] show ?thesis
      by (simp add: resp_factor_def)
  next
    case False
    have "dsize st ob \<noteq> 1" using w v False by auto
    then have "?t \<noteq> 1" using honest_okD(3)[OF ho s _ ob True] by blast
    then have "?t < 1" using honest_okD(2)[OF ho s] by simp
    moreover have "0 < dsize st ob" using v by simp
    ultimately show ?thesis using w False True by (simp add: resp_factor_def)
  qed
qed

lemma resp_value_pos:
  assumes "shaped st" and "aligned st" and "honest_ok st (store st (theta_old st))"
    and "ob < n_objects st" and "v < dsize st ob"
  shows "0 < resp_value st ob v"
  unfolding resp_value_def
  by (rule prod_list_pos) (use resp_factor_pos[OF assms(1,2,3) _ assms(4,5)] in auto)

lemma joint_value_pos:
  assumes "shaped st" and "aligned st" and "honest_ok st (store st (theta_old st))"
    and "ob < n_objects st" and "x \<in> set (joint_value st ob)"
  shows "0 < x"
proof -
  from assms(5) obtain v where v: "v < dsize st ob" and x: "x = 1 / real (dsize st ob) * resp_value st ob v"
    by (auto simp: joint_value_def)
  have "0 < resp_value st ob v" by (rule resp_value_pos[OF assms(1,2,3,4) v])
  moreover have "0 < dsize st ob" using v by simp
  ultimately show ?thesis unfolding x by simp
qed

lemma joint_sum_pos:
  assumes "shaped st" and "aligned st" and "honest_ok st (store st (theta_old st))"
    and "ob < n_objects st"
  shows "0 < sum_list (joint_value st ob)"
proof (rule sum_list_pos_real)
  have "0 < dsize st ob" by (rule shapedD(6)[OF assms(1,4)])
  then show "joint_value st ob \<noteq> []" by (simp add: joint_value_def)
  show "\<And>x. x \<in> set (joint_value st ob) \<Longrightarrow> 0 < x"
    by (rule joint_value_pos[OF assms])
qed

lemma post_value_range:
  assumes "shaped st" and "aligned st" and "honest_ok st (store st (theta_old st))"
    and "ob < n_objects st" and "v < dsize st ob"
  shows "0 < post_value st ob ! v" and "post_value st ob ! v \<le> 1"
    and "1 < dsize st ob \<Longrightarrow> post_value st ob ! v < 1"
proof -
  let ?j = "joint_value st ob"
  have S: "0 < sum_list ?j" by (rule joint_sum_pos[OF assms(1,2,3,4)])
  have pos: "\<And>x. x \<in> set ?j \<Longrightarrow> 0 < x" by (rule joint_value_pos[OF assms(1,2,3,4)])
  have v: "v < length ?j" using assms(5) by simp
  have p: "post_value st ob ! v = ?j ! v / sum_list ?j" using v by (simp add: post_value_def)
  have jv: "0 < ?j ! v" using pos v by simp
  show "0 < post_value st ob ! v" unfolding p using jv S by simp
  show "post_value st ob ! v \<le> 1" unfolding p using nth_le_sum_list(1)[OF pos v] S by simp
  assume "1 < dsize st ob"
  then have "1 < length ?j" by simp
  from nth_le_sum_list(2)[OF pos v this] show "post_value st ob ! v < 1" unfolding p using S by simp
qed

lemma e_step_ok:
  assumes sh: "shaped st" and al: "aligned st" and ho: "honest_ok st (store st (theta_old st))"
  shows "\<exists>st1. e_step st = Inr st1 \<and> post_ok st1"
proof -
  let ?st1 = "st\<lparr>posterior := (\<lambda>ob. if ob < n_objects st then Some (post_value st ob) else posterior st ob)\<rparr>"
  have nz: "\<forall>ob < n_objects st. sum_list (joint_value st ob) \<noteq> 0"
    using joint_sum_pos[OF sh al ho] by fastforce
  have e: "e_step st = Inr ?st1" unfolding e_step_char[OF sh] using nz by simp
  have "post_ok ?st1"
    unfolding post_ok_def
    using post_value_range[OF sh al ho] by (simp add: dsize_def)
  with e show ?thesis by blast
qed

lemma post_okD:
  assumes "post_ok st" and "ob < n_objects st"
  obtains p where "posterior st ob = Some p"
    and "\<And>v. v < dsize st ob \<Longrightarrow> 0 < p ! v"
    and "\<And>v. v < dsize st ob \<Longrightarrow> p ! v \<le> 1"
    and "\<And>v. v < dsize st ob \<Longrightarrow> 1 < dsize st ob \<Longrightarrow> p ! v < 1"
  using assms unfolding post_ok_def by blast

lemma post_ok_complete: "post_ok st \<Longrightarrow> complete_posterior st"
  unfolding post_ok_def complete_posterior_def by fastforce

lemma match_sum_zero:
  assumes "weight st ! s ! ob = 0"
  shows "match_sum st s ob = 0"
  unfolding match_sum_def using assms by simp

lemma match_sum_one:
  assumes w: "weight st ! s ! ob = 1" and g: "get_value st s ob = Some w" and wd: "w < dsize st ob"
    and p: "posterior st ob = Some p"
  shows "match_sum st s ob = p ! w"
proof -
  have "match_sum st s ob = (\<Sum>v\<leftarrow>[0..<dsize st ob]. if v = w then p ! v else 0)"
    unfolding match_sum_def w g p
    by (intro arg_cong[where f=sum_list] map_cong) auto
  also have "\<dots> = (\<Sum>v\<in>{0..<dsize st ob}. if v = w then p ! v else 0)"
    by (simp add: interv_sum_list_conv_sum_set_nat)
  also have "\<dots> = p ! w" using wd by (simp add: sum.delta)
  finally show ?thesis .
qed

lemma match_sum_range:
  assumes al: "aligned st" and po: "post_ok st" and s: "s < n_sources st" and ob: "ob < n_objects st"
  shows "0 \<le> match_sum st s ob" and "match_sum st s ob \<le> weight st ! s ! ob"
    and "weight st ! s ! ob = 1 \<Longrightarrow> 0 < match_sum st s ob"
    and "weight st ! s ! ob = 1 \<Longrightarrow> 1 < dsize st ob \<Longrightarrow> match_sum st s ob < 1"
proof -
  from post_okD[OF po ob] obtain p where p: "posterior st ob = Some p"
    and p0: "\<And>v. v < dsize st ob \<Longrightarrow> 0 < p ! v"
    and p1: "\<And>v. v < dsize st ob \<Longrightarrow> p ! v \<le> 1"
    and p2: "\<And>v. v < dsize st ob \<Longrightarrow> 1 < dsize st ob \<Longrightarrow> p ! v < 1" by blast
  have one: "\<exists>w. w < dsize st ob \<and> match_sum st s ob = p ! w" if "weight st ! s ! ob = 1"
  proof -
    from alignedD(2)[OF al s ob that] obtain w where w: "get_value st s ob = Some w" "w < dsize st ob"
      by blast
    from match_sum_one[OF that w p] w(2) show ?thesis by blast
  qed
  from alignedD(1)[OF al s ob] show "0 \<le> match_sum st s ob"
  proof
    assume "weight st ! s ! ob = 0" then show ?thesis by (simp add: match_sum_zero)
  next
    assume "weight st ! s ! ob = 1"
    from one[OF this] obtain w where "w < dsize st ob" "match_sum st s ob = p ! w" by blast
    then show ?thesis using p0[of w] by simp
  qed
  from alignedD(1)[OF al s ob] show "match_sum st s ob \<le> weight st ! s ! ob"
  proof
    assume "weight st ! s ! ob = 0" then show ?thesis by (simp add: match_sum_zero)
  next
    assume w1: "weight st ! s ! ob = 1"
    from one[OF this] obtain w where "w < dsize st ob" "match_sum st s ob = p ! w" by blast
    then show ?thesis using p1[of w] w1 by simp
  qed
  show "0 < match_sum st s ob" if "weight st ! s ! ob = 1"
  proof -
    from one[OF that] obtain w where "w < dsize st ob" "match_sum st s ob = p ! w" by blast
    then show ?thesis using p0[of w] by simp
  qed
  show "match_sum st s ob < 1" if "weight st ! s ! ob = 1" "1 < dsize st ob"
  proof -
    from one[OF that(1)] obtain w where "w < dsize st ob" "match_sum st s ob = p ! w" by blast
    then show ?thesis using p2[of w] that(2) by simp
  qed
qed

lemma honest_value_range:
  assumes sh: "shaped st" and al: "aligned st" and po: "post_ok st" and s: "s < n_sources st"
  shows "sum_list (weight st ! s) \<noteq> 0"
    and "0 < honest_value st s" and "honest_value st s \<le> 1"
    and "\<And>ob. honest_value st s = 1 \<Longrightarrow> ob < n_objects st \<Longrightarrow> weight st ! s ! ob = 1
            \<Longrightarrow> dsize st ob = 1"
proof -
  let ?n = "n_objects st"
  let ?W = "\<lambda>ob. weight st ! s ! ob"
  let ?t = "match_sum st s"
  have den: "sum_list (weight st ! s) = (\<Sum>ob<?n. ?W ob)"
    using shapedD(2)[OF sh s] by (simp add: sum_list_sum_nth atLeast0LessThan)
  have num: "(\<Sum>ob\<leftarrow>[0..<?n]. ?t ob) = (\<Sum>ob<?n. ?t ob)"
    by (simp add: interv_sum_list_conv_sum_set_nat atLeast0LessThan)
  have hv: "honest_value st s = (\<Sum>ob<?n. ?t ob) / (\<Sum>ob<?n. ?W ob)"
    unfolding honest_value_def den num ..
  from alignedD(3)[OF al s] obtain ob0 where ob0: "ob0 < ?n" "?W ob0 = 1" by blast
  have t0: "\<And>ob. ob < ?n \<Longrightarrow> 0 \<le> ?t ob" by (rule match_sum_range(1)[OF al po s])
  have tW: "\<And>ob. ob < ?n \<Longrightarrow> ?t ob \<le> ?W ob" by (rule match_sum_range(2)[OF al po s])
  have N: "0 < (\<Sum>ob<?n. ?t ob)"
  proof (rule sum_pos2[where i=ob0])
    show "finite {..<?n}" by simp
    show "ob0 \<in> {..<?n}" using ob0 by simp
    show "0 < ?t ob0" by (rule match_sum_range(3)[OF al po s ob0])
    show "\<And>i. i \<in> {..<?n} \<Longrightarrow> 0 \<le> ?t i" using t0 by simp
  qed
  have le: "(\<Sum>ob<?n. ?t ob) \<le> (\<Sum>ob<?n. ?W ob)"
    by (rule sum_mono) (use tW in simp)
  have D: "0 < (\<Sum>ob<?n. ?W ob)" using N le by linarith
  show "sum_list (weight st ! s) \<noteq> 0" unfolding den using D by simp
  show "0 < honest_value st s" unfolding hv using N D by simp
  show "honest_value st s \<le> 1" unfolding hv using le D by simp
  fix ob assume h1: "honest_value st s = 1" and ob: "ob < ?n" and w1: "?W ob = 1"
  from h1 have "(\<Sum>ob<?n. ?t ob) = (\<Sum>ob<?n. ?W ob)" unfolding hv using D by simp
  then have "(\<Sum>ob<?n. ?W ob - ?t ob) = 0" by (simp add: sum_subtractf)
  moreover have nn: "\<forall>ob\<in>{..<?n}. 0 \<le> ?W ob - ?t ob" using tW by simp
  ultimately have "\<forall>ob\<in>{..<?n}. ?W ob - ?t ob = 0"
    using sum_nonneg_eq_0_iff[of "{..<?n}" "\<lambda>ob. ?W ob - ?t ob"] by blast
  then have "?t ob = 1" using ob w1 by simp
  then have "\<not> 1 < dsize st ob" using match_sum_range(4)[OF al po s ob w1] by auto
  moreover have "0 < dsize st ob" by (rule shapedD(6)[OF sh ob])
  ultimately show "dsize st ob = 1" by simp
qed

lemma dsize_same_table: "same_table st st' \<Longrightarrow> dsize st' = dsize st"
  by (intro ext) (simp add: dsize_def same_table_def)

lemma get_value_same_table: "same_table st st' \<Longrightarrow> get_value st' = get_value st"
  by (intro ext) (simp add: get_value_def same_table_def)

lemma aligned_same_table:
  assumes "same_table st st'" and "aligned st"
  shows "aligned st'"
  using assms(2) same_tableD[OF assms(1)]
  unfolding aligned_def dsize_same_table[OF assms(1)] get_value_same_table[OF assms(1)]
  by simp

lemma honest_ok_same_table:
  assumes "same_table st st'" and "honest_ok st th"
  shows "honest_ok st' th"
  using assms(2) same_tableD[OF assms(1)]
  unfolding honest_ok_def dsize_same_table[OF assms(1)]
  by simp

lemma pass_ok:
  assumes sh: "shaped st" and al: "aligned st" and ho: "honest_ok st (store st (theta_old st))"
  shows "\<exists>st1 st2. e_step st = Inr st1 \<and> m_step st1 = Inr st2
           \<and> shaped st2 \<and> aligned st2 \<and> same_table st st2
           \<and> theta_old st2 = theta_old st \<and> theta_new st2 = theta_new st
           \<and> honest_ok st2 (store st2 (theta_new st2))"
proof -
  from e_step_ok[OF sh al ho] obtain st1 where e: "e_step st = Inr st1" and po: "post_ok st1"
    by blast
  note es = e_step_shaped[OF sh e]
  have sh1: "shaped st1" by (rule es(1))
  have al1: "aligned st1" by (rule aligned_same_table[OF es(2) al])
  have cp1: "complete_posterior st1" by (rule es(3))
  let ?new = "map (honest_value st1) [0..<n_sources st1]"
  let ?st2 = "st1\<lparr>store := (store st1)(theta_new st1 := ?new)\<rparr>"
  have rows: "\<forall>s < n_sources st1. sum_list (weight st1 ! s) \<noteq> 0"
    using honest_value_range(1)[OF sh1 al1 po] by blast
  have m: "m_step st1 = Inr ?st2" unfolding m_step_char[OF sh1 cp1] using rows by simp
  have t12: "same_table st1 ?st2" by (simp add: same_table_def)
  have sh2: "shaped ?st2" by (rule shaped_store_update[OF sh1]) simp
  have al2: "aligned ?st2" by (rule aligned_same_table[OF t12 al1])
  have t02: "same_table st ?st2" by (rule same_table_trans[OF es(2) t12])
  have new: "store ?st2 (theta_new ?st2) = ?new" by simp
  have "honest_ok st1 ?new"
    unfolding honest_ok_def
    using honest_value_range(2,3,4)[OF sh1 al1 po] by simp
  then have ho2: "honest_ok ?st2 (store ?st2 (theta_new ?st2))"
    unfolding new by (rule honest_ok_same_table[OF t12])
  have refs: "theta_old ?st2 = theta_old st" "theta_new ?st2 = theta_new st"
    using es(5,6) by simp_all
  show ?thesis using e m sh2 al2 t02 refs ho2 by blast
qed

section \<open>The loop of discover\<close>

lemma np_sub_same_length:
  "length a = length b \<Longrightarrow> np_binop (-) a b = Inr (map2 (-) a b)"
  by (simp add: np_binop_def)

lemma norm2_nonneg: "0 \<le> norm2 xs"
proof -
  have "0 \<le> sum_list (map (\<lambda>x. \<bar>x\<bar> ^ 2) xs)" by (rule sum_list_nonneg) auto
  then show ?thesis by (simp add: norm2_def)
qed

lemma norm2_self: "norm2 (map2 (-) a a) = 0"
proof -
  have z: "map (\<lambda>x. \<bar>x\<bar> ^ 2) (map2 (-) a a) = replicate (length a) (0::real)"
    by (rule nth_equalityI) simp_all
  show ?thesis unfolding norm2_def z by (simp add: sum_list_replicate)
qed

lemma norm2_less_iff:
  "norm2 xs < alpha \<longleftrightarrow> 0 < alpha \<and> sum_list (map (\<lambda>x. \<bar>x\<bar> ^ 2) xs) < alpha ^ 2"
proof -
  let ?S = "sum_list (map (\<lambda>x. \<bar>x\<bar> ^ 2) xs)"
  have S: "0 \<le> ?S" by (rule sum_list_nonneg) auto
  show ?thesis
  proof (cases "0 < alpha")
    case False
    then show ?thesis using norm2_nonneg[of xs] by simp
  next
    case True
    have "sqrt ?S < alpha \<longleftrightarrow> sqrt ?S < sqrt (alpha ^ 2)" using True by simp
    also have "\<dots> \<longleftrightarrow> ?S < alpha ^ 2" by (rule real_sqrt_less_iff)
    finally show ?thesis using True by (simp add: norm2_def)
  qed
qed

text \<open>The state invariant of the loop.\<close>

lemma advance_inv:
  assumes "shaped st" and "aligned st" and "honest_ok st (store st (theta_new st))"
  shows "shaped (st\<lparr>theta_old := theta_new st\<rparr>)"
    and "aligned (st\<lparr>theta_old := theta_new st\<rparr>)"
    and "honest_ok (st\<lparr>theta_old := theta_new st\<rparr>)
           (store (st\<lparr>theta_old := theta_new st\<rparr>) (theta_old (st\<lparr>theta_old := theta_new st\<rparr>)))"
proof -
  have t: "same_table st (st\<lparr>theta_old := theta_new st\<rparr>)" by (simp add: same_table_def)
  show "shaped (st\<lparr>theta_old := theta_new st\<rparr>)" by (rule advance_shaped[OF assms(1)])
  show "aligned (st\<lparr>theta_old := theta_new st\<rparr>)" by (rule aligned_same_table[OF t assms(2)])
  have "honest_ok (st\<lparr>theta_old := theta_new st\<rparr>) (store st (theta_new st))"
    by (rule honest_ok_same_table[OF t assms(3)])
  then show "honest_ok (st\<lparr>theta_old := theta_new st\<rparr>)
           (store (st\<lparr>theta_old := theta_new st\<rparr>) (theta_old (st\<lparr>theta_old := theta_new st\<rparr>)))"
    by simp
qed

lemma discover_loop_step:
  assumes e: "e_step st = Inr st1" and m: "m_step st1 = Inr st2" and sh2: "shaped st2"
  shows "discover_loop (Suc fuel) alpha step st =
     (if norm2 (map2 (-) (store st2 (theta_old st2)) (store st2 (theta_new st2))) < alpha
      then Some (Inr (step, st2))
      else discover_loop fuel alpha (step + 1) (st2\<lparr>theta_old := theta_new st2\<rparr>))"
proof -
  have "length (store st2 (theta_old st2)) = length (store st2 (theta_new st2))"
    using shapedD(3,4)[OF sh2] by simp
  from np_sub_same_length[OF this] show ?thesis by (simp add: e m Let_def)
qed


lemma discover_loop_two:
  assumes sh: "shaped st" and al: "aligned st" and ho: "honest_ok st (store st (theta_old st))"
    and a: "0 < alpha"
  shows "\<exists>k st'. discover_loop (Suc (Suc n)) alpha step st = Some (Inr (step + k, st')) \<and> k \<le> 1
           \<and> shaped st' \<and> same_table st st' \<and> complete_posterior st'
           \<and> (k = 1 \<longrightarrow> theta_old st' = theta_new st'
                 \<and> norm2 (map2 (-) (store st' (theta_old st')) (store st' (theta_new st'))) = 0)"
proof -
  from pass_ok[OF sh al ho] obtain st1 st2 where e: "e_step st = Inr st1"
    and m: "m_step st1 = Inr st2" and sh2: "shaped st2" and al2: "aligned st2"
    and t2: "same_table st st2"
    and ho2: "honest_ok st2 (store st2 (theta_new st2))" by blast
  have cp2: "complete_posterior st2"
    using e_step_shaped(1,3)[OF sh e] m_step_InrD(1)[OF _ _ m] by (simp add: complete_posterior_def)
  let ?d = "norm2 (map2 (-) (store st2 (theta_old st2)) (store st2 (theta_new st2)))"
  show ?thesis
  proof (cases "?d < alpha")
    case True
    then have "discover_loop (Suc (Suc n)) alpha step st = Some (Inr (step + 0, st2))"
      unfolding discover_loop_step[OF e m sh2] by simp
    then show ?thesis using sh2 t2 cp2 by (intro exI[of _ 0] exI[of _ st2]) simp
  next
    case False
    let ?st3 = "st2\<lparr>theta_old := theta_new st2\<rparr>"
    note inv3 = advance_inv[OF sh2 al2 ho2]
    from pass_ok[OF inv3] obtain st4 st5 where e3: "e_step ?st3 = Inr st4"
      and m3: "m_step st4 = Inr st5" and sh5: "shaped st5"
      and t5: "same_table ?st3 st5"
      and old5: "theta_old st5 = theta_old ?st3" and new5: "theta_new st5 = theta_new ?st3"
      by blast
    have same_ref: "theta_old st5 = theta_new st5" using old5 new5 by simp
    have cp5: "complete_posterior st5"
      using e_step_shaped(1,3)[OF inv3(1) e3] m_step_InrD(1)[OF _ _ m3]
      by (simp add: complete_posterior_def)
    have zero: "norm2 (map2 (-) (store st5 (theta_old st5)) (store st5 (theta_new st5))) = 0"
      unfolding same_ref by (rule norm2_self)
    have "discover_loop (Suc (Suc n)) alpha step st = discover_loop (Suc n) alpha (step + 1) ?st3"
      unfolding discover_loop_step[OF e m sh2] using False by simp
    also have "\<dots> = Some (Inr (step + 1, st5))"
      unfolding discover_loop_step[OF e3 m3 sh5] zero using a by simp
    finally have r: "discover_loop (Suc (Suc n)) alpha step st = Some (Inr (step + 1, st5))" .
    have "same_table st2 ?st3" by (simp add: same_table_def)
    then have t05: "same_table st st5" using t2 t5 same_table_trans by blast
    show ?thesis using r sh5 t05 cp5 same_ref zero by (intro exI[of _ 1] exI[of _ st5]) simp
  qed
qed

section \<open>The constructor on a table with dense ids\<close>

lemma dense_labels:
  assumes "set xs = {0..<length (remdups xs)}"
  shows "sort (remdups xs) = [0..<length (remdups (xs::nat list))]"
proof -
  have "sort (remdups xs) = sorted_list_of_set (set xs)"
    by (simp add: sorted_list_of_set_sort_remdups)
  also have "\<dots> = [0..<length (remdups xs)]" unfolding assms by simp
  finally show ?thesis .
qed

lemma map_of_claims:
  assumes "distinct (map (\<lambda>c. (source_id c, object_id c)) cl)"
  shows "map_of (map (\<lambda>c. ((source_id c, object_id c), claim_value c)) cl) (s, ob) = Some v
           \<longleftrightarrow> (s, ob, v) \<in> set cl"
proof -
  let ?ps = "map (\<lambda>c. ((source_id c, object_id c), claim_value c)) cl"
  have d: "distinct (map fst ?ps)" using assms by (simp add: comp_def)
  have "map_of ?ps (s, ob) = Some v \<longleftrightarrow> ((s, ob), v) \<in> set ?ps"
    using map_of_eq_Some_iff[OF d] by blast
  also have "\<dots> \<longleftrightarrow> (s, ob, v) \<in> set cl"
    by (force simp: source_id_def object_id_def claim_value_def)
  finally show ?thesis .
qed

lemma binarize_cases [simp]: "binarize None = 0" "binarize (Some v) = 1"
  by (simp_all add: binarize_def Let_def)



lemma init_dense_aligned:
  assumes dense: "dense_ids cl" and i: "init cl = Inr st"
  shows "aligned st" and "honest_ok st (store st (theta_old st))"
proof -
  note f = init_fields[OF i]
  from dense have dist: "distinct (map (\<lambda>c. (source_id c, object_id c)) cl)"
    and srcs: "set (map source_id cl) = {0..<n_sources st}"
    and objs: "set (map object_id cl) = {0..<n_objects st}"
    unfolding f(2) f(3) by (simp_all add: dense_ids_def)
  have sl: "source_labels cl = [0..<n_sources st]"
    unfolding source_labels_def f(2) by (rule dense_labels) (use srcs f(2) in simp)
  have ol: "object_labels cl = [0..<n_objects st]"
    unfolding object_labels_def f(3) by (rule dense_labels) (use objs f(3) in simp)
  let ?m = "map_of (map (\<lambda>c. ((source_id c, object_id c), claim_value c)) cl)"
  have w: "weight st ! s ! ob = binarize (?m (s, ob))"
    if "s < n_sources st" "ob < n_objects st" for s ob
    unfolding f(1) sl ol using that by simp
  have gv: "get_value st s ob = ?m (s, ob)" for s ob
  proof -
    have e: "get_value st s ob = Some v \<longleftrightarrow> ?m (s, ob) = Some v" for v
      unfolding get_value_def init_InrD(2)[OF i] build_value_index_distinct[OF dist]
        map_of_claims[OF dist] ..
    show ?thesis
    proof (cases "?m (s, ob)")
      case None
      then have "\<And>v. get_value st s ob \<noteq> Some v" using e by simp
      then have "get_value st s ob = None" by (cases "get_value st s ob") auto
      then show ?thesis using None by simp
    next
      case (Some v)
      then show ?thesis using e[of v] by simp
    qed
  qed
  have mem: "(s, ob, v) \<in> set cl \<longleftrightarrow> get_value st s ob = Some v" for s ob v
    unfolding gv map_of_claims[OF dist] ..
  have ds: "dsize st ob = Max (set (group_values cl ob)) + 1" if "group_values cl ob \<noteq> []" for ob
    unfolding dsize_def f(4) using that by simp
  show "aligned st" unfolding aligned_def
  proof (intro conjI allI impI)
    fix s ob assume "s < n_sources st" "ob < n_objects st"
    then show "weight st ! s ! ob = 0 \<or> weight st ! s ! ob = 1"
      unfolding w[OF \<open>s < n_sources st\<close> \<open>ob < n_objects st\<close>] by (cases "?m (s, ob)") simp_all
  next
    fix s ob assume so: "s < n_sources st" "ob < n_objects st" and "weight st ! s ! ob = 1"
    then show "get_value st s ob \<noteq> None"
      unfolding w[OF so] gv by (cases "?m (s, ob)") simp_all
  next
    fix s ob v assume "ob < n_objects st" and g: "get_value st s ob = Some v"
    then have c: "(s, ob, v) \<in> set cl" using mem by simp
    have "v \<in> claim_value ` {c \<in> set cl. object_id c = ob}"
      using c by (intro image_eqI[of _ _ "(s, ob, v)"]) (simp_all add: object_id_def claim_value_def)
    then have v: "v \<in> set (group_values cl ob)" by (simp add: group_values_def)
    then have "v \<le> Max (set (group_values cl ob))" by simp
    moreover have "group_values cl ob \<noteq> []" using v by auto
    ultimately show "v < dsize st ob" using ds by simp
  next
    fix s assume s: "s < n_sources st"
    then have "s \<in> set (map source_id cl)" unfolding srcs by simp
    then obtain c where c: "c \<in> set cl" "source_id c = s" by auto
    let ?ob = "object_id c"
    have "?ob \<in> set (map object_id cl)" using c by simp
    then have ob: "?ob < n_objects st" unfolding objs by simp
    have "c = (s, ?ob, claim_value c)"
      using c(2) by (cases c) (simp add: source_id_def object_id_def claim_value_def)
    then have "(s, ?ob, claim_value c) \<in> set cl" using c(1) by simp
    then have "?m (s, ?ob) = Some (claim_value c)" unfolding map_of_claims[OF dist] .
    then have "weight st ! s ! ?ob = 1" unfolding w[OF s ob] by simp
    with ob show "\<exists>ob<n_objects st. weight st ! s ! ob = 1" by blast
  qed
  show "honest_ok st (store st (theta_old st))"
    unfolding honest_ok_def f(8) f(9) by (simp add: np_ones_def)
qed

section \<open>What discover returns\<close>





section \<open>Termination of discover\<close>

lemma dense_fixtureB: "dense_ids fixtureB"
  by (auto simp: dense_ids_def fixtureB_def source_id_def object_id_def)





section \<open>The order of the pair that discover returns\<close>


lemma fixtureB_run:
  "\<exists>st'. discover_loop 2 (1 / 10000) 0 (projr (init fixtureB)) = Some (Inr (1, st'))
       \<and> n_sources st' = 3 \<and> n_objects st' = 3
       \<and> store st' (theta_old st') = [1 / 2, 1 / 2, 4 / 5]
       \<and> posterior st' 2 = Some [1 / 5, 4 / 5]"
proof -
  let ?st0 = "projr (init fixtureB)"
  let ?st1 = "projr (e_step ?st0)"
  let ?st2 = "projr (m_step ?st1)"
  let ?st3 = "?st2\<lparr>theta_old := theta_new ?st2\<rparr>"
  let ?st4 = "projr (e_step ?st3)"
  let ?st5 = "projr (m_step ?st4)"
  have r0: "reachable fixtureB ?st0" by (rule reachable.constructed[OF init_fixtureB])
  have r1: "reachable fixtureB ?st1" by (rule reachable.after_e_step[OF r0 e_step_fixtureB])
  have r2: "reachable fixtureB ?st2" by (rule reachable.after_m_step[OF r1 m_step_fixtureB])
  have sh0: "shaped ?st0" by (rule reachable_shaped[OF r0])
  have sh2: "shaped ?st2" by (rule reachable_shaped[OF r2])
  note inv0 = init_dense_aligned[OF dense_fixtureB init_fixtureB]
  from pass_ok[OF sh0 inv0] obtain sta stb where
    "e_step ?st0 = Inr sta" "m_step sta = Inr stb" "aligned stb"
    "honest_ok stb (store stb (theta_new stb))" by blast
  then have al2: "aligned ?st2" and ho2: "honest_ok ?st2 (store ?st2 (theta_new ?st2))"
    by simp_all
  note inv3 = advance_inv[OF sh2 al2 ho2]
  from pass_ok[OF inv3] obtain st4 st5 where e4: "e_step ?st3 = Inr st4"
    and m5: "m_step st4 = Inr st5" and sh5': "shaped st5" and t5': "same_table ?st3 st5"
    and old5': "theta_old st5 = theta_old ?st3" and new5': "theta_new st5 = theta_new ?st3"
    by blast
  have st4: "st4 = ?st4" unfolding e4 by simp
  have e3: "e_step ?st3 = Inr ?st4" using e4 st4 by simp
  have m3: "m_step ?st4 = Inr ?st5" using m5 st4 by simp
  have st5: "st5 = ?st5" using m5 st4 by simp
  note sh5 = sh5'[unfolded st5] and t5 = t5'[unfolded st5]
    and old5 = old5'[unfolded st5] and new5 = new5'[unfolded st5]
  have tn2: "theta_new ?st2 = 1" by code_simp
  have old: "theta_old ?st5 = 1" and new: "theta_new ?st5 = 1"
    using old5 new5 tn2 by simp_all
  have d1: "map2 (-) (store ?st2 (theta_old ?st2)) (store ?st2 (theta_new ?st2)) = [0, 0, - (1 / 6)]"
    by code_simp
  have n1: "\<not> norm2 [0, 0, - (1 / 6)] < 1 / 10000"
    unfolding norm2_less_iff by (simp add: power2_eq_square)
  have n2: "norm2 (map2 (-) (store ?st5 (theta_old ?st5)) (store ?st5 (theta_new ?st5))) < 1 / 10000"
    unfolding old new norm2_self by simp
  have two: "(2::nat) = Suc (Suc 0)" by simp
  have s1: "discover_loop (Suc (Suc 0)) (1 / 10000) 0 ?st0 = discover_loop (Suc 0) (1 / 10000) (0 + 1) ?st3"
    unfolding discover_loop_step[OF e_step_fixtureB m_step_fixtureB sh2] d1
    by (simp only: n1 if_False)
  have s2: "discover_loop (Suc 0) (1 / 10000) (0 + 1) ?st3 = Some (Inr (0 + 1, ?st5))"
    unfolding discover_loop_step[OF e3 m3 sh5]
    by (simp only: n2 if_True)
  have "discover_loop 2 (1 / 10000) 0 ?st0 = Some (Inr (1, ?st5))"
    unfolding two s1 s2 by simp
  moreover have "n_sources ?st5 = 3" "n_objects ?st5 = 3"
  proof -
    have "n_sources ?st2 = 3" "n_objects ?st2 = 3" by code_simp+
    then show "n_sources ?st5 = 3" "n_objects ?st5 = 3"
      using same_tableD(1,2)[OF t5] by simp_all
  qed
  moreover have "store ?st5 (theta_old ?st5) = [1 / 2, 1 / 2, 4 / 5]"
  proof -
    have "store ?st5 1 = [1 / 2, 1 / 2, 4 / 5]" by code_simp
    then show ?thesis unfolding old .
  qed
  moreover have "posterior ?st5 2 = Some [1 / 5, 4 / 5]" by code_simp
  ultimately show ?thesis by blast
qed




section \<open>The test suite and the convergence check on the model\<close>

text \<open>
  The assertions of \<open>test_build_observation_matrix\<close> and \<open>test_build_weight_matrix\<close> on
  fixture A: the observation matrix is 3 by 5 with 3 at (1, 2) and -1 at (1, 0); the weight
  matrix is 3 by 3 with 0 at (2, 0) and 1 at (2, 2).
\<close>

theorem test_suite_matrices:
  "observation (projr (init fixtureA)) =
     [[0, 1, - 1, - 1, - 1], [- 1, - 1, 3, 1, - 1], [- 1, - 1, - 1, - 1, 1]]
   \<and> weight (projr (init fixtureA)) = [[1, 1, 0], [1, 1, 0], [0, 0, 1]]"
  by code_simp

text \<open>
  The assertions of \<open>test_compute_joint\<close> and \<open>test_e_step\<close> on fixture B: the joint vector
  of object 1 is [0.0625, 0.0625], and after one E-step \<open>posterior[1][1]\<close> is 0.5.
\<close>

theorem test_suite_joint_posterior:
  "compute_joint (projr (init fixtureB)) 1 = Inr [1 / 16, 1 / 16]
   \<and> posterior (projr (e_step (projr (init fixtureB)))) 1 = Some [1 / 2, 1 / 2]"
  by code_simp

text \<open>
  On fixture B with the threshold 1/10000 the loop exits in its second pass (\<open>step = 1\<close>)
  with the honesty vector [1/2, 1/2, 4/5], although the vector after the first pass was
  [1/2, 1/2, 2/3]: in the second pass \<open>theta_old\<close> and \<open>theta_new\<close> are one array, so the
  difference that is compared with the threshold is 0 and not the distance 2/15 of the two
  successive vectors.
\<close>

theorem discover_exits_on_aliased_arrays:
  "\<exists>st'. discover_loop 2 (1 / 10000) 0 (projr (init fixtureB)) = Some (Inr (1, st'))
      \<and> store (projr (m_step (projr (e_step (projr (init fixtureB))))))
               (theta_new (projr (m_step (projr (e_step (projr (init fixtureB)))))))
           = [1 / 2, 1 / 2, 2 / 3]
      \<and> store st' (theta_old st') = [1 / 2, 1 / 2, 4 / 5]
      \<and> theta_old st' = theta_new st'"
proof -
  from fixtureB_run obtain st' where
    l: "discover_loop 2 (1 / 10000) 0 (projr (init fixtureB)) = Some (Inr (1, st'))"
    and th: "store st' (theta_old st') = [1 / 2, 1 / 2, 4 / 5]" by blast
  have sh: "shaped (projr (init fixtureB))" by (rule init_shaped[OF init_fixtureB])
  note inv = init_dense_aligned[OF dense_fixtureB init_fixtureB]
  have a: "(0::real) < 1 / 10000" by simp
  from discover_loop_two[OF sh inv a, of 0 0] l have same: "theta_old st' = theta_new st'"
    by (simp add: numeral_2_eq_2)
  have one: "store (projr (m_step (projr (e_step (projr (init fixtureB))))))
               (theta_new (projr (m_step (projr (e_step (projr (init fixtureB)))))))
           = [1 / 2, 1 / 2, 2 / 3]" by code_simp
  show ?thesis
  proof (intro exI[of _ st'] conjI)
    show "discover_loop 2 (1 / 10000) 0 (projr (init fixtureB)) = Some (Inr (1, st'))" by (rule l)
    show "store (projr (m_step (projr (e_step (projr (init fixtureB))))))
               (theta_new (projr (m_step (projr (e_step (projr (init fixtureB)))))))
           = [1 / 2, 1 / 2, 2 / 3]" by (rule one)
    show "store st' (theta_old st') = [1 / 2, 1 / 2, 4 / 5]" by (rule th)
    show "theta_old st' = theta_new st'" by (rule same)
  qed
qed

end
